theory Spec2Isabelle
  imports Complex_Main "HOL-Library.Word" "HOL-Library.Log_Nat"
begin

section \<open>The pixel-stream protocol of the Qubes isolation provider\<close>

text \<open>
  This theory embeds \<^verbatim>\<open>dangerzone/isolation_provider/qubes.py\<close>: the framed reads
  \<^verbatim>\<open>read_bytes\<close> and \<^verbatim>\<open>read_int\<close>, the session \<^verbatim>\<open>Qubes._convert\<close> and
  \<^verbatim>\<open>Qubes.teleport_dz_module\<close>.

  Conventions of the embedding.
  \<^item> A byte is an \<open>8 word\<close>; a \<^verbatim>\<open>bytes\<close> value is a list of them.
  \<^item> Python's \<^verbatim>\<open>int\<close> values that occur here are lengths and unsigned decodings, so they
    are \<open>nat\<close>; the worker's exit status is an \<open>int\<close>.
  \<^item> The progress percentage is a Python \<^verbatim>\<open>float\<close>, an IEEE 754 binary64 value. A
    finite double is embedded as the rational number it denotes; \<^verbatim>\<open>/\<close> and \<^verbatim>\<open>+=\<close> are
    the exact operation followed by the rounding of binary64, to nearest with ties to even.
  \<^item> Time is counted in whole seconds (\<open>nat\<close>).
  \<^item> Exceptions are values: a function that can raise returns \<open>'x error + 'a\<close>.
\<close>

subsection \<open>Bytes, streams and errors\<close>

type_synonym byte = "8 word"

text \<open>
  The exceptions that leave the code. \<open>ValueError\<close> is raised by \<^verbatim>\<open>read_bytes\<close>,
  \<open>OverflowError\<close> by \<^verbatim>\<open>int.to_bytes\<close>, \<open>FileNotFoundError\<close> by \<^verbatim>\<open>shutil.move\<close>.
  \<open>Raised x\<close> is an exception object \<open>x\<close> built by a module that is not part of this
  file (\<^verbatim>\<open>exception_from_error_code\<close>, \<^verbatim>\<open>PixelsToPDF\<close>); its type is a parameter.
\<close>

datatype 'x error = ValueError | OverflowError | FileNotFoundError | Raised 'x

text \<open>
  What a worker puts on a pipe, seen from the host: a byte that is there to be read, or a
  second that passes with nothing to read. The end of the list is the end of the file.
\<close>

datatype event = Data byte | Wait

type_synonym pipe = "event list"

text \<open>
  Modelled from the spec: \<^verbatim>\<open>nonblocking_read\<close> of \<^verbatim>\<open>dangerzone.util\<close>, which is not
  in the source tree. It "attempts to accumulate exactly \<open>n\<close> bytes from a non-blocking
  source within \<open>timeout\<close>", "consumes bytes irreversibly from the underlying stream" and
  consumes them "strictly in arrival order". The result is the buffer, the rest of the
  pipe and the seconds that passed.
\<close>

fun nonblocking_read :: "pipe \<Rightarrow> nat \<Rightarrow> nat \<Rightarrow> byte list \<times> pipe \<times> nat" where
  "nonblocking_read [] sz timeout = ([], [], 0)"
| "nonblocking_read (Data b # f) sz timeout =
     (if sz = 0 then ([], Data b # f, 0)
      else (case nonblocking_read f (sz - 1) timeout of
              (buf, f', dt) \<Rightarrow> (b # buf, f', dt)))"
| "nonblocking_read (Wait # f) sz timeout =
     (if sz = 0 \<or> timeout = 0 then ([], Wait # f, 0)
      else (case nonblocking_read f sz (timeout - 1) of
              (buf, f', dt) \<Rightarrow> (buf, f', Suc dt)))"

text \<open>\<^verbatim>\<open>read_bytes(f, size, timeout, exact=True)\<close>, lines 40-45.\<close>

definition read_bytes ::
  "pipe \<Rightarrow> nat \<Rightarrow> nat \<Rightarrow> bool \<Rightarrow> ('x error + byte list) \<times> pipe \<times> nat" where
  "read_bytes f sz timeout exact =
     (case nonblocking_read f sz timeout of
        (buf, f', dt) \<Rightarrow>
          if exact \<and> length buf \<noteq> sz then (Inl ValueError, f', dt)
          else (Inr buf, f', dt))"

text \<open>
  \<^verbatim>\<open>int.from_bytes(b, signed=False)\<close>: the byte order defaults to \<^verbatim>\<open>"big"\<close>, so the
  first byte is the most significant.
\<close>

definition from_bytes :: "byte list \<Rightarrow> nat" where
  "from_bytes bs = foldl (\<lambda>acc b. acc * 256 + unat b) 0 bs"

text \<open>\<^verbatim>\<open>read_int(f, timeout)\<close>, lines 48-51.\<close>

definition read_int :: "pipe \<Rightarrow> nat \<Rightarrow> ('x error + nat) \<times> pipe \<times> nat" where
  "read_int f timeout =
     (case read_bytes f 2 timeout True of
        (Inl e, f', dt) \<Rightarrow> (Inl e, f', dt)
      | (Inr untrusted_int, f', dt) \<Rightarrow> (Inr (from_bytes untrusted_int), f', dt))"

text \<open>
  \<^verbatim>\<open>n.to_bytes(length)\<close>: the byte order defaults to \<^verbatim>\<open>"big"\<close>; a value that does not
  fit raises \<^verbatim>\<open>OverflowError\<close>.
\<close>

definition to_bytes :: "nat \<Rightarrow> nat \<Rightarrow> 'x error + byte list" where
  "to_bytes n len =
     (if n < 256 ^ len
      then Inr (map (\<lambda>i. word_of_nat (n div 256 ^ (len - 1 - i))) [0..<len])
      else Inl OverflowError)"

text \<open>\<^verbatim>\<open>str(n)\<close> of a non-negative \<^verbatim>\<open>int\<close>: its decimal digits.\<close>

fun str :: "nat \<Rightarrow> string" where
  "str n = (if n < 10 then [''0123456789'' ! n]
            else str (n div 10) @ [''0123456789'' ! (n mod 10)])"

declare str.simps [simp del]

text \<open>
  \<^verbatim>\<open>bytes.decode("ascii", errors="replace")\<close>, as a list of code points: a byte that is
  not ASCII becomes U+FFFD.
\<close>

definition decode_ascii_replace :: "byte list \<Rightarrow> nat list" where
  "decode_ascii_replace bs = map (\<lambda>b. if unat b < 128 then unat b else 65533) bs"

subsection \<open>Python floats\<close>

text \<open>
  A Python \<^verbatim>\<open>float\<close> is an IEEE 754 binary64 value: a significand of 53 bits and an
  exponent from \<open>-1022\<close> to \<open>1023\<close>, with subnormal values below \<open>2 powi -1022\<close>. The
  results of \<^verbatim>\<open>/\<close> and \<^verbatim>\<open>+\<close> are the exact results rounded to the nearest such value,
  ties going to the even significand. Overflow is not modelled: the values rounded in
  this file are quotients of 50 or 100 by a page count and sums of at most 65535 of
  them.

  \<open>round_half_even q\<close> is the integer nearest to \<open>q\<close>, the even one of two that are
  equally near.
\<close>

definition round_half_even :: "rat \<Rightarrow> int" where
  "round_half_even q =
     (let f = \<lfloor>q\<rfloor>; r = q - of_int f
      in if r < 1 / 2 then f else if 1 / 2 < r then f + 1 else if even f then f else f + 1)"

text \<open>
  The binary exponent of a double near \<open>x\<close>: \<open>2 powi exponent x \<le> \<bar>x\<bar> < 2 powi (exponent x + 1)\<close>
  for a normal \<open>x\<close>, and \<open>-1022\<close> below that. \<open>ulp x\<close> is the distance between two doubles
  there.
\<close>

definition exponent :: "rat \<Rightarrow> int" where
  "exponent x = max (bitlen \<lfloor>\<bar>x\<bar> * 2 ^ 1074\<rfloor> - 1075) (- 1022)"

definition ulp :: "rat \<Rightarrow> rat" where
  "ulp x = 2 powi (exponent x - 52)"

definition round_double :: "rat \<Rightarrow> rat" where
  "round_double x = of_int (round_half_even (x / ulp x)) * ulp x"

text \<open>\<^verbatim>\<open>a / b\<close> with \<open>b \<noteq> 0\<close> and \<^verbatim>\<open>a + b\<close> on floats.\<close>

definition float_div :: "rat \<Rightarrow> rat \<Rightarrow> rat" where
  "float_div a b = round_double (a / b)"

definition float_add :: "rat \<Rightarrow> rat \<Rightarrow> rat" where
  "float_add a b = round_double (a + b)"

subsection \<open>The session and its collaborators\<close>

text \<open>A call of \<^verbatim>\<open>print_progress_trusted\<close>: the error flag, the text, the percentage.\<close>

type_synonym report = "bool \<times> string \<times> rat"

text \<open>What \<^verbatim>\<open>open(path, "w")\<close> and \<^verbatim>\<open>open(path, "wb")\<close> write: text or bytes.\<close>

datatype content = Text string | Bytes "byte list"

text \<open>
  The collaborators that \<^verbatim>\<open>qubes.py\<close> imports and that are not in the source tree are
  parameters of the model:
  \<^item> \<open>calculate_timeout size pages\<close> of \<^verbatim>\<open>conversion.common\<close>;
  \<^item> \<open>exception_from_error_code\<close> of \<^verbatim>\<open>conversion.errors\<close>;
  \<^item> \<open>dangerzone_dev\<close>, the value of \<^verbatim>\<open>getattr(sys, "dangerzone_dev", False)\<close>;
  \<^item> \<open>zipfile_value\<close>, the bytes \<^verbatim>\<open>temp_file.getvalue()\<close> that \<^verbatim>\<open>zipfile.PyZipFile\<close>
    leaves in the buffer of \<^verbatim>\<open>teleport_dz_module\<close>;
  \<^item> \<open>MAX_CONVERSION_LOG_CHARS\<close> of \<^verbatim>\<open>isolation_provider.base\<close>;
  \<^item> \<open>pixels_to_pdf ocr_lang files\<close>, one run of \<^verbatim>\<open>PixelsToPDF(...).convert(ocr_lang)\<close> on
    the staged files: the calls it makes to its progress callback, the exception it
    raises if any, and the bytes it leaves at \<^verbatim>\<open>CONVERTED_FILE_PATH\<close> if any.
\<close>

record 'x deps =
  calculate_timeout :: "rat \<Rightarrow> nat option \<Rightarrow> nat"
  exception_from_error_code :: "int \<Rightarrow> 'x"
  dangerzone_dev :: bool
  zipfile_value :: "byte list"
  MAX_CONVERSION_LOG_CHARS :: nat
  pixels_to_pdf ::
    "string option \<Rightarrow> (string \<times> content) list \<Rightarrow> report list \<times> 'x option \<times> byte list option"

text \<open>
  The disposable qube that \<^verbatim>\<open>subprocess.Popen\<close> starts: what it will put on its standard
  output and standard error, and the status that \<^verbatim>\<open>p.wait()\<close> returns.
\<close>

record worker =
  writes_stdout :: pipe
  writes_stderr :: pipe
  returncode :: int

text \<open>
  The state of one session: the process object \<^verbatim>\<open>p\<close> (the bytes its standard input
  has received, what is left on its two output pipes, whether \<^verbatim>\<open>p.stdout\<close> is closed),
  the monotonic clock, the files written under \<^verbatim>\<open>/tmp/dangerzone\<close> in the order of the
  writes, the local variable \<^verbatim>\<open>percentage\<close>, the calls of \<^verbatim>\<open>print_progress_trusted\<close>
  in order, and the file at \<^verbatim>\<open>document.output_filename\<close>.
\<close>

record state =
  p_stdin :: "byte list"
  p_stdout :: pipe
  p_stderr :: pipe
  stdout_closed :: bool
  clock :: nat
  files :: "(string \<times> content) list"
  percentage :: rat
  progress :: "report list"
  output_file :: "byte list option"

text \<open>
  Modelled from the spec: \<^verbatim>\<open>Stopwatch\<close> of \<^verbatim>\<open>dangerzone.util\<close>, which is not in the
  source tree: "an absolute deadline (monotonic time) plus a remaining accessor", which
  "must never return a negative value" ("clamp to zero").
\<close>

record stopwatch =
  sw_timeout :: nat
  sw_start :: nat

definition remaining :: "stopwatch \<Rightarrow> nat \<Rightarrow> nat" where
  "remaining sw now =
     (if sw_timeout sw \<le> now - sw_start sw then 0
      else sw_timeout sw - (now - sw_start sw))"

definition STARTUP_TIME_SECONDS :: nat where
  "STARTUP_TIME_SECONDS = 5 * 60"

text \<open>
  A read on \<^verbatim>\<open>p.stdout\<close> (or \<^verbatim>\<open>p.stderr\<close>) inside the session: the pipe loses what was
  read and the clock advances by the time the read took.
\<close>

definition on_stdout :: "(pipe \<Rightarrow> 'a \<times> pipe \<times> nat) \<Rightarrow> state \<Rightarrow> 'a \<times> state" where
  "on_stdout rd s =
     (case rd (p_stdout s) of
        (r, f', dt) \<Rightarrow> (r, s\<lparr>p_stdout := f', clock := clock s + dt\<rparr>))"

definition on_stderr :: "(pipe \<Rightarrow> 'a \<times> pipe \<times> nat) \<Rightarrow> state \<Rightarrow> 'a \<times> state" where
  "on_stderr rd s =
     (case rd (p_stderr s) of
        (r, f', dt) \<Rightarrow> (r, s\<lparr>p_stderr := f', clock := clock s + dt\<rparr>))"

text \<open>\<^verbatim>\<open>read_debug_text(f, size)\<close>, lines 54-58.\<close>

definition read_debug_text ::
  "'x deps \<Rightarrow> pipe \<Rightarrow> nat \<Rightarrow> ('x error + nat list) \<times> pipe \<times> nat" where
  "read_debug_text d f sz =
     (let timeout = calculate_timeout d (of_nat sz) None in
      case read_bytes f sz timeout False of
        (Inl e, f', dt) \<Rightarrow> (Inl e, f', dt)
      | (Inr untrusted_text, f', dt) \<Rightarrow> (Inr (decode_ascii_replace untrusted_text), f', dt))"

text \<open>\<^verbatim>\<open>teleport_dz_module(wpipe)\<close>, lines 198-218: the two writes on the pipe.\<close>

definition teleport_dz_module :: "'x deps \<Rightarrow> state \<Rightarrow> ('x error + unit) \<times> state" where
  "teleport_dz_module d s =
     (case to_bytes (length (zipfile_value d)) 4 of
        Inl e \<Rightarrow> (Inl e, s)
      | Inr bufsize_bytes \<Rightarrow>
          (Inr (), s\<lparr>p_stdin := (p_stdin s @ bufsize_bytes) @ zipfile_value d\<rparr>))"

subsection \<open>The session: \<^verbatim>\<open>Qubes._convert\<close>\<close>

text \<open>
  \<^verbatim>\<open>if ocr_lang:\<close> on an \<^verbatim>\<open>Optional[str]\<close>: \<^verbatim>\<open>None\<close> and the empty string are false.
\<close>

fun truthy :: "string option \<Rightarrow> bool" where
  "truthy None = False"
| "truthy (Some l) = (l \<noteq> [])"

text \<open>
  Lines 131-134. \<^verbatim>\<open>n_pages\<close> is an \<^verbatim>\<open>int\<close> below \<open>2 ^ 16\<close>, not 0 here; its conversion
  to a float is exact.
\<close>

definition percentage_per_page :: "string option \<Rightarrow> nat \<Rightarrow> rat" where
  "percentage_per_page ocr_lang n_pages =
     (if truthy ocr_lang then float_div 50 (of_nat n_pages)
      else float_div 100 (of_nat n_pages))"

text \<open>The three paths \<^verbatim>\<open>/tmp/dangerzone/page-{page}.{width,height,rgb}\<close>.\<close>

definition page_path :: "nat \<Rightarrow> string \<Rightarrow> string" where
  "page_path page ext = ''/tmp/dangerzone/page-'' @ str page @ ''.'' @ ext"

text \<open>
  Lines 86-112: the worker is started. In development mode the host writes the module and
  then the document to \<^verbatim>\<open>p.stdin\<close>; otherwise the document's file is the worker's
  standard input.
\<close>

definition start_worker ::
  "'x deps \<Rightarrow> byte list \<Rightarrow> state \<Rightarrow> ('x error + unit) \<times> state" where
  "start_worker d document s =
     (if dangerzone_dev d then
        (case teleport_dz_module d s of
           (Inl e, s') \<Rightarrow> (Inl e, s')
         | (Inr u, s') \<Rightarrow> (Inr (), s'\<lparr>p_stdin := p_stdin s' @ document\<rparr>))
      else (Inr (), s\<lparr>p_stdin := document\<rparr>))"

text \<open>Lines 140-161: the body of the loop, for one \<^verbatim>\<open>page\<close>.\<close>

definition convert_page ::
  "stopwatch \<Rightarrow> nat \<Rightarrow> rat \<Rightarrow> state \<Rightarrow> nat \<Rightarrow> ('x error + unit) \<times> state" where
  "convert_page sw n_pages per_page s page =
     (case on_stdout (\<lambda>f. read_int f (remaining sw (clock s))) s of
        (Inl e, s1) \<Rightarrow> (Inl e, s1)
      | (Inr width, s1) \<Rightarrow>
     (case on_stdout (\<lambda>f. read_int f (remaining sw (clock s1))) s1 of
        (Inl e, s2) \<Rightarrow> (Inl e, s2)
      | (Inr height, s2) \<Rightarrow>
     (case on_stdout
             (\<lambda>f. read_bytes f (width * height * 3) (remaining sw (clock s2)) True) s2 of
        (Inl e, s3) \<Rightarrow> (Inl e, s3)
      | (Inr untrusted_pixels, s3) \<Rightarrow>
          (let s4 = s3\<lparr>files := files s3 @
                       [(page_path page ''width'', Text (str width)),
                        (page_path page ''height'', Text (str height)),
                        (page_path page ''rgb'', Bytes untrusted_pixels)]\<rparr>;
               s5 = s4\<lparr>percentage := float_add (percentage s4) per_page\<rparr>;
               msg = ''Converting page '' @ str page @ ''/'' @ str n_pages @ '' to pixels''
           in (Inr (), s5\<lparr>progress := progress s5 @ [(False, msg, percentage s5)]\<rparr>)))))"

text \<open>Line 139: the loop over \<^verbatim>\<open>range(1, n_pages + 1)\<close>; an exception leaves it.\<close>

fun convert_pages ::
  "stopwatch \<Rightarrow> nat \<Rightarrow> rat \<Rightarrow> nat list \<Rightarrow> state \<Rightarrow> ('x error + unit) \<times> state" where
  "convert_pages sw n_pages per_page [] s = (Inr (), s)"
| "convert_pages sw n_pages per_page (page # pages) s =
     (case convert_page sw n_pages per_page s page of
        (Inl e, s') \<Rightarrow> (Inl e, s')
      | (Inr u, s') \<Rightarrow> convert_pages sw n_pages per_page pages s')"

text \<open>
  Lines 163-193: after the loop. The text read from \<^verbatim>\<open>p.stderr\<close> only goes to the log,
  which the state does not keep.
\<close>

definition finish ::
  "'x deps \<Rightarrow> string option \<Rightarrow> state \<Rightarrow> ('x error + bool) \<times> state" where
  "finish d ocr_lang s =
     (let s1 = s\<lparr>stdout_closed := True\<rparr>;
          s2 = s1\<lparr>progress := progress s1 @
                     [(False, ''Converted document to pixels'', percentage s1)]\<rparr>;
          s3 = (if dangerzone_dev d
                then snd (on_stderr
                            (\<lambda>f. read_debug_text d f (MAX_CONVERSION_LOG_CHARS d)) s2)
                else s2)
      in case pixels_to_pdf d ocr_lang (files s3) of
           (reports, raised, converted) \<Rightarrow>
             (let s4 = s3\<lparr>progress := progress s3 @ reports\<rparr> in
              case raised of
                Some x \<Rightarrow> (Inl (Raised x), s4)
              | None \<Rightarrow>
                  (let s5 = s4\<lparr>percentage := 100\<rparr>;
                       s6 = s5\<lparr>progress := progress s5 @
                                  [(False, ''Safe PDF created'', percentage s5)]\<rparr>
                   in case converted of
                        None \<Rightarrow> (Inl FileNotFoundError, s6)
                      | Some pdf \<Rightarrow> (Inr True, s6\<lparr>output_file := Some pdf\<rparr>))))"

text \<open>
  Lines 114-161: the page count, then the pages. The result \<open>Inr False\<close> is line 130,
  \<^verbatim>\<open>return False\<close>; \<open>Inr True\<close> says that the loop is over and the session goes on.
\<close>

definition doc_to_pixels ::
  "'x deps \<Rightarrow> worker \<Rightarrow> byte list \<Rightarrow> string option \<Rightarrow> state \<Rightarrow> ('x error + bool) \<times> state" where
  "doc_to_pixels d w document ocr_lang s =
     (let sz = of_nat (length document) / 1024 ^ 2;
          timeout = calculate_timeout d sz None + STARTUP_TIME_SECONDS
      in case on_stdout (\<lambda>f. read_int f timeout) s of
           (Inl ValueError, s1) \<Rightarrow>
             (Inl (Raised (exception_from_error_code d (returncode w))), s1)
         | (Inl e, s1) \<Rightarrow> (Inl e, s1)
         | (Inr n_pages, s1) \<Rightarrow>
             if n_pages = 0 then (Inr False, s1)
             else
               (let per_page = percentage_per_page ocr_lang n_pages;
                    timeout = calculate_timeout d sz (Some n_pages);
                    sw = \<lparr>sw_timeout = timeout, sw_start = clock s1\<rparr>
                in case convert_pages sw n_pages per_page [1..<n_pages + 1] s1 of
                     (Inl e, s2) \<Rightarrow> (Inl e, s2)
                   | (Inr u, s2) \<Rightarrow> (Inr True, s2)))"

text \<open>
  Lines 72-84: the session starts with an empty \<^verbatim>\<open>/tmp/dangerzone\<close>, no file at
  \<^verbatim>\<open>CONVERTED_FILE_PATH\<close> and \<^verbatim>\<open>percentage = 0.0\<close>.
\<close>

definition initial :: "worker \<Rightarrow> state" where
  "initial w =
     \<lparr>p_stdin = [], p_stdout = writes_stdout w, p_stderr = writes_stderr w,
      stdout_closed = False, clock = 0, files = [], percentage = 0, progress = [],
      output_file = None\<rparr>"

text \<open>\<^verbatim>\<open>_convert(self, document, ocr_lang)\<close>, lines 67-193.\<close>

definition convert ::
  "'x deps \<Rightarrow> worker \<Rightarrow> byte list \<Rightarrow> string option \<Rightarrow> ('x error + bool) \<times> state" where
  "convert d w document ocr_lang =
     (case start_worker d document (initial w) of
        (Inl e, s) \<Rightarrow> (Inl e, s)
      | (Inr u, s) \<Rightarrow>
          (case doc_to_pixels d w document ocr_lang s of
             (Inl e, s') \<Rightarrow> (Inl e, s')
           | (Inr False, s') \<Rightarrow> (Inr False, s')
           | (Inr True, s') \<Rightarrow> finish d ocr_lang s'))"

subsection \<open>Vocabulary of the properties\<close>

text \<open>The bytes that a pipe carries, in order, whenever they arrive.\<close>

fun bytes_of :: "pipe \<Rightarrow> byte list" where
  "bytes_of [] = []"
| "bytes_of (Data b # f) = b # bytes_of f"
| "bytes_of (Wait # f) = bytes_of f"

text \<open>
  A page record as the worker sends it: width, height and pixel buffer. It is well formed
  when both dimensions fit in 16 bits and the buffer has three bytes for each pixel.
\<close>

type_synonym page = "nat \<times> nat \<times> byte list"

text \<open>The wire format of section 6 of the specification: big-endian 16-bit fields.\<close>

definition uint16 :: "nat \<Rightarrow> byte list" where
  "uint16 v = [word_of_nat (v div 256), word_of_nat v]"

fun wire_page :: "page \<Rightarrow> byte list" where
  "wire_page (width, height, pixels) = uint16 width @ uint16 height @ pixels"

definition wire :: "page list \<Rightarrow> byte list" where
  "wire pages = uint16 (length pages) @ concat (map wire_page pages)"

fun well_formed :: "page \<Rightarrow> bool" where
  "well_formed (width, height, pixels) =
     (width < 65536 \<and> height < 65536 \<and> length pixels = width * height * 3)"

text \<open>
  The files of page \<open>i\<close> as lines 151-156 write them, and those of consecutive pages
  from page \<open>i\<close> on.
\<close>

fun staged_page :: "nat \<Rightarrow> page \<Rightarrow> (string \<times> content) list" where
  "staged_page i (width, height, pixels) =
     [(page_path i ''width'', Text (str width)),
      (page_path i ''height'', Text (str height)),
      (page_path i ''rgb'', Bytes pixels)]"

fun staged :: "nat \<Rightarrow> page list \<Rightarrow> (string \<times> content) list" where
  "staged i [] = []"
| "staged i (p # ps) = staged_page i p @ staged (Suc i) ps"

text \<open>
  The percentages after each of \<open>k\<close> pages, starting from \<open>p\<close>: each is the float sum of
  the one before and the increment. \<open>page_reports n_pages page p inc k\<close> are the reports of
  the \<open>k\<close> pages from \<open>page\<close> on, with these percentages. \<open>percentages\<close> reads the
  percentages off a list of reports.
\<close>

fun accumulate :: "rat \<Rightarrow> rat \<Rightarrow> nat \<Rightarrow> rat list" where
  "accumulate p inc 0 = []"
| "accumulate p inc (Suc k) = float_add p inc # accumulate (float_add p inc) inc k"

fun page_reports :: "nat \<Rightarrow> nat \<Rightarrow> rat \<Rightarrow> rat \<Rightarrow> nat \<Rightarrow> report list" where
  "page_reports n_pages page p inc 0 = []"
| "page_reports n_pages page p inc (Suc k) =
     (False, ''Converting page '' @ str page @ ''/'' @ str n_pages @ '' to pixels'',
      float_add p inc)
     # page_reports n_pages (Suc page) (float_add p inc) inc k"

definition percentages :: "report list \<Rightarrow> rat list" where
  "percentages reports = map (\<lambda>(is_error, msg, p). p) reports"

text \<open>
  A scenario for the concrete runs below: every timeout is ten seconds, the exception for
  an exit status is the status itself, the session is not in development mode, and the
  PDF stage reports nothing and leaves an empty file.
\<close>

definition scenario_deps :: "int deps" where
  "scenario_deps =
     \<lparr>calculate_timeout = (\<lambda>sz pages. 10), exception_from_error_code = (\<lambda>code. code),
      dangerzone_dev = False, zipfile_value = [], MAX_CONVERSION_LOG_CHARS = 0,
      pixels_to_pdf = (\<lambda>ocr_lang staged. ([], None, Some []))\<rparr>"

text \<open>
  The same scenario with a PDF stage that reports the given percentages, in order, before
  it leaves its file.
\<close>

definition pdf_stage_reporting :: "rat list \<Rightarrow> int deps" where
  "pdf_stage_reporting ps =
     scenario_deps\<lparr>pixels_to_pdf :=
       (\<lambda>ocr_lang staged. (map (\<lambda>p. (False, ''Converting pixels to PDF'', p)) ps, None, Some []))\<rparr>"

section \<open>Properties\<close>

text \<open>The definitions that a concrete run unfolds.\<close>

lemmas session_defs =
  convert_def start_worker_def teleport_dz_module_def initial_def doc_to_pixels_def
  on_stdout_def on_stderr_def read_int_def read_bytes_def from_bytes_def
  STARTUP_TIME_SECONDS_def convert_page_def remaining_def percentage_per_page_def
  page_path_def finish_def read_debug_text_def to_bytes_def decode_ascii_replace_def
  upt_conv_Cons str.simps Let_def


subsection \<open>Rounding to an integer\<close>

lemma round_half_even_floor:
  "\<lfloor>q\<rfloor> \<le> round_half_even q \<and> round_half_even q \<le> \<lfloor>q\<rfloor> + 1"
  by (simp add: round_half_even_def Let_def)

lemma round_half_even_of_int: "round_half_even (of_int k) = k"
  by (simp add: round_half_even_def)

lemma round_half_even_ge: "of_int k \<le> q \<Longrightarrow> k \<le> round_half_even q"
proof -
  assume "of_int k \<le> q"
  then have "k \<le> \<lfloor>q\<rfloor>" by (simp add: le_floor_iff)
  with round_half_even_floor [of q] show ?thesis by linarith
qed

lemma round_half_even_le: "q \<le> of_int k \<Longrightarrow> round_half_even q \<le> k"
proof (cases "q = of_int k")
  case True
  then show ?thesis by (simp add: round_half_even_of_int)
next
  case False
  assume "q \<le> of_int k"
  with False have "q < of_int k" by simp
  then have "\<lfloor>q\<rfloor> < k" by (simp add: floor_less_iff)
  with round_half_even_floor [of q] show ?thesis by linarith
qed

lemma round_half_even_mono:
  assumes "q \<le> q'"
  shows "round_half_even q \<le> round_half_even q'"
proof (cases "\<lfloor>q\<rfloor> = \<lfloor>q'\<rfloor>")
  case True
  with assms show ?thesis by (auto simp: round_half_even_def Let_def)
next
  case False
  from assms have "\<lfloor>q\<rfloor> \<le> \<lfloor>q'\<rfloor>" by (rule floor_mono)
  with False have lt: "\<lfloor>q\<rfloor> < \<lfloor>q'\<rfloor>" by simp
  have "round_half_even q \<le> \<lfloor>q\<rfloor> + 1" using round_half_even_floor [of q] by simp
  also have "\<dots> \<le> \<lfloor>q'\<rfloor>" using lt by simp
  also have "\<dots> \<le> round_half_even q'" using round_half_even_floor [of q'] by simp
  finally show ?thesis .
qed

lemma round_half_even_eqI:
  "\<bar>q - of_int m\<bar> < 1 / 2 \<or> \<bar>q - of_int m\<bar> = 1 / 2 \<and> even m \<Longrightarrow> round_half_even q = m"
proof -
  assume a: "\<bar>q - of_int m\<bar> < 1 / 2 \<or> \<bar>q - of_int m\<bar> = 1 / 2 \<and> even m"
  have f: "of_int \<lfloor>q\<rfloor> \<le> q" "q < of_int \<lfloor>q\<rfloor> + 1" by linarith+
  from a have "of_int m - 1 < q" "q < of_int m + 1" by linarith+
  with f have "of_int m - 1 < (of_int \<lfloor>q\<rfloor> + 1 :: rat)" "(of_int \<lfloor>q\<rfloor> :: rat) < of_int m + 1"
    by linarith+
  then have "m - 1 < \<lfloor>q\<rfloor> + 1" "\<lfloor>q\<rfloor> < m + 1"
    by (metis of_int_1 of_int_add of_int_diff of_int_less_iff)+
  then have "\<lfloor>q\<rfloor> = m \<or> \<lfloor>q\<rfloor> = m - 1" by linarith
  then show ?thesis
  proof
    assume e: "\<lfloor>q\<rfloor> = m"
    with a f show ?thesis by (auto simp: round_half_even_def Let_def)
  next
    assume e: "\<lfloor>q\<rfloor> = m - 1"
    with a f show ?thesis by (auto simp: round_half_even_def Let_def)
  qed
qed

lemma round_half_even_error: "\<bar>of_int (round_half_even q) - q\<bar> \<le> 1 / 2"
proof -
  have f: "of_int \<lfloor>q\<rfloor> \<le> q" "q < of_int \<lfloor>q\<rfloor> + 1" by linarith+
  then show ?thesis by (auto simp: round_half_even_def Let_def)
qed

subsection \<open>The exponent\<close>

lemma two_powi_pos: "0 < (2::rat) powi e"
  by (simp add: zero_less_power_int)

lemma two_powi_nat: "0 \<le> e \<Longrightarrow> (2::rat) powi e = 2 ^ nat e"
  by (simp add: power_int_def)

lemma two_powi_shift: "(2::rat) powi (e - int k) * 2 ^ k = 2 powi e"
proof -
  have "(2::rat) powi (e - int k) * 2 powi (int k) = 2 powi (e - int k + int k)"
    by (rule power_int_add [symmetric]) simp
  then show ?thesis by (simp add: power_int_of_nat)
qed

lemma exponent_ge: "- 1022 \<le> exponent x"
  by (simp add: exponent_def)

lemma floor_upper: "(q::rat) < of_int \<lfloor>q\<rfloor> + 1"
  by linarith

lemma exponent_unfold:
  "\<exists>(S :: rat) N. 0 < S \<and> (\<forall>k. 2 powi (k - 1074) * S = 2 powi k)
      \<and> of_int N \<le> \<bar>x\<bar> * S \<and> \<bar>x\<bar> * S < of_int N + 1 \<and> 0 \<le> N
      \<and> exponent x = max (bitlen N - 1075) (- 1022)"
proof -
  let ?S = "2 ^ 1074 :: rat" and ?N = "\<lfloor>\<bar>x\<bar> * 2 ^ 1074\<rfloor>"
  have 1: "0 < ?S" by simp
  have 2: "\<forall>k. 2 powi (k - 1074) * ?S = 2 powi k"
    using two_powi_shift [of _ 1074] by simp
  have 3: "of_int ?N \<le> \<bar>x\<bar> * ?S" by (rule of_int_floor_le)
  have 4: "\<bar>x\<bar> * ?S < of_int ?N + 1" by (rule floor_upper)
  have "0 \<le> \<bar>x\<bar> * ?S" by simp
  then have 5: "0 \<le> ?N" by (simp only: zero_le_floor)
  have 6: "exponent x = max (bitlen ?N - 1075) (- 1022)" by (simp add: exponent_def)
  from 1 2 3 4 5 6 show ?thesis by blast
qed

lemma less_two_power_bitlen: "0 \<le> N \<Longrightarrow> N < 2 ^ nat (bitlen N)"
  using bitlen_le_iff_power [of N "bitlen N"] bitlen_nonneg [of N] by simp

lemma exponent_upper: "\<bar>x\<bar> < 2 powi (exponent x + 1)"
proof -
  from exponent_unfold [of x] obtain S :: rat and N :: int where S: "0 < S"
    and shift': "\<forall>k. 2 powi (k - 1074) * S = 2 powi k"
    and lo: "of_int N \<le> \<bar>x\<bar> * S" and up: "\<bar>x\<bar> * S < of_int N + 1" and N: "0 \<le> N"
    and e: "exponent x = max (bitlen N - 1075) (- 1022)"
    by blast
  from shift' have shift: "2 powi (k - 1074) * S = 2 powi k" for k by blast
  have bl: "0 \<le> bitlen N" by (rule bitlen_nonneg)
  have "N + 1 \<le> 2 ^ nat (bitlen N)" using less_two_power_bitlen [OF N] by simp
  then have "(of_int (N + 1) :: rat) \<le> of_int (2 ^ nat (bitlen N))" by (simp only: of_int_le_iff)
  then have "(of_int N + 1 :: rat) \<le> 2 powi (bitlen N)" using bl by (simp add: two_powi_nat)
  with up have "\<bar>x\<bar> * S < 2 powi (bitlen N)" by simp
  also have "\<dots> = 2 powi (bitlen N - 1074) * S" by (rule shift [symmetric])
  finally have "\<bar>x\<bar> < 2 powi (bitlen N - 1074)" using S by simp
  also have "\<dots> \<le> 2 powi (exponent x + 1)"
    by (rule power_int_increasing) (simp_all add: e)
  finally show ?thesis .
qed

lemma exponent_lower:
  assumes "2 powi (- 1022) \<le> \<bar>x\<bar>"
  shows "2 powi (exponent x) \<le> \<bar>x\<bar>"
proof -
  from exponent_unfold [of x] obtain S :: rat and N :: int where S: "0 < S"
    and shift': "\<forall>k. 2 powi (k - 1074) * S = 2 powi k"
    and lo: "of_int N \<le> \<bar>x\<bar> * S" and up: "\<bar>x\<bar> * S < of_int N + 1" and N: "0 \<le> N"
    and e: "exponent x = max (bitlen N - 1075) (- 1022)"
    by blast
  from shift' have shift: "2 powi (k - 1074) * S = 2 powi k" for k by blast
  have "(2::rat) powi 52 = 2 powi (52 - 1074) * S" by (rule shift [symmetric])
  also have "\<dots> \<le> \<bar>x\<bar> * S" using assms S by simp
  finally have "(2::rat) ^ 52 < of_int N + 1" using up by simp
  then have "(of_int (2 ^ 52) :: rat) < of_int (N + 1)" by simp
  then have "(2::int) ^ 52 < N + 1" by (simp only: of_int_less_iff)
  then have N52: "2 ^ 52 \<le> N" by simp
  then have bl: "53 \<le> bitlen N" using bitlen_ge_iff_power [of 53 N] by simp
  then have e': "exponent x = bitlen N - 1 - 1074" by (simp add: e)
  have "(0::int) < 2 ^ 52" by simp
  with N52 have "0 < N" by linarith
  then have "2 ^ nat (bitlen N - 1) \<le> N" using bitlen_bounds [of N] by simp
  then have "(of_int (2 ^ nat (bitlen N - 1)) :: rat) \<le> of_int N" by (simp only: of_int_le_iff)
  then have "(2::rat) powi (bitlen N - 1) \<le> of_int N" using bl by (simp add: two_powi_nat)
  also note lo
  finally have "2 powi (bitlen N - 1 - 1074) * S \<le> \<bar>x\<bar> * S" by (simp only: shift)
  then have "2 powi (bitlen N - 1 - 1074) \<le> \<bar>x\<bar>" using S by simp
  then show ?thesis by (simp only: e')
qed

lemma exponent_subnormal:
  assumes "\<bar>x\<bar> < 2 powi (- 1022)"
  shows "exponent x = - 1022"
proof -
  from exponent_unfold [of x] obtain S :: rat and N :: int where S: "0 < S"
    and shift': "\<forall>k. 2 powi (k - 1074) * S = 2 powi k"
    and lo: "of_int N \<le> \<bar>x\<bar> * S" and up: "\<bar>x\<bar> * S < of_int N + 1" and N: "0 \<le> N"
    and e: "exponent x = max (bitlen N - 1075) (- 1022)"
    by blast
  from shift' have shift: "2 powi (k - 1074) * S = 2 powi k" for k by blast
  have "\<bar>x\<bar> * S < 2 powi (52 - 1074) * S" using assms S by simp
  also have "\<dots> = 2 powi 52" by (rule shift)
  finally have "(of_int N :: rat) < of_int (2 ^ 52)" using lo by simp
  then have "N < 2 ^ 52" by (simp only: of_int_less_iff)
  then have "bitlen N \<le> 52" using bitlen_le_iff_power [of N 52] by simp
  then show ?thesis by (simp add: e)
qed

lemma exponent_normal:
  assumes "- 1022 < exponent x"
  shows "2 powi (exponent x) \<le> \<bar>x\<bar>"
proof (rule exponent_lower, rule ccontr)
  assume "\<not> 2 powi (- 1022) \<le> \<bar>x\<bar>"
  then have "exponent x = - 1022" by (intro exponent_subnormal) simp
  with assms show False by simp
qed

lemma exponent_eq:
  assumes "- 1022 \<le> e" "2 powi e \<le> \<bar>x\<bar>" "\<bar>x\<bar> < 2 powi (e + 1)"
  shows "exponent x = e"
proof -
  have "(2::rat) powi (- 1022) \<le> 2 powi e" using assms(1) by (intro power_int_increasing) simp_all
  with assms(2) have "2 powi (- 1022) \<le> \<bar>x\<bar>" by simp
  then have lo: "2 powi (exponent x) \<le> \<bar>x\<bar>" by (rule exponent_lower)
  have up: "\<bar>x\<bar> < 2 powi (exponent x + 1)" by (rule exponent_upper)
  have "\<not> exponent x + 1 \<le> e"
  proof
    assume "exponent x + 1 \<le> e"
    then have "(2::rat) powi (exponent x + 1) \<le> 2 powi e" by (intro power_int_increasing) simp_all
    with up assms(2) show False by simp
  qed
  moreover have "\<not> e + 1 \<le> exponent x"
  proof
    assume "e + 1 \<le> exponent x"
    then have "(2::rat) powi (e + 1) \<le> 2 powi (exponent x)" by (intro power_int_increasing) simp_all
    with lo assms(3) show False by simp
  qed
  ultimately show ?thesis by simp
qed

lemma exponent_mono:
  assumes "\<bar>x\<bar> \<le> \<bar>y\<bar>"
  shows "exponent x \<le> exponent y"
proof (cases "- 1022 < exponent x")
  case False
  with exponent_ge [of x] have "exponent x = - 1022" by simp
  with exponent_ge [of y] show ?thesis by simp
next
  case True
  then have "2 powi (exponent x) \<le> \<bar>x\<bar>" by (rule exponent_normal)
  also note assms
  also have "\<bar>y\<bar> < 2 powi (exponent y + 1)" by (rule exponent_upper)
  finally have lt: "(2::rat) powi (exponent x) < 2 powi (exponent y + 1)" .
  have "\<not> exponent y + 1 \<le> exponent x"
  proof
    assume "exponent y + 1 \<le> exponent x"
    then have "(2::rat) powi (exponent y + 1) \<le> 2 powi (exponent x)"
      by (intro power_int_increasing) simp_all
    with lt show False by simp
  qed
  then show ?thesis by simp
qed

subsection \<open>Rounding to a double\<close>

lemma ulp_pos: "0 < ulp x"
  by (simp add: ulp_def two_powi_pos)

lemma ulp_52: "ulp x * 2 ^ 52 = 2 powi (exponent x)"
  unfolding ulp_def using two_powi_shift [of "exponent x" 52] by simp

lemma ulp_53: "ulp x * 2 ^ 53 = 2 powi (exponent x + 1)"
  unfolding ulp_def using two_powi_shift [of "exponent x + 1" 53] by simp

lemma significand_less: "\<bar>x\<bar> / ulp x < 2 ^ 53"
proof -
  have "\<bar>x\<bar> < ulp x * 2 ^ 53" unfolding ulp_53 by (rule exponent_upper)
  then show ?thesis using ulp_pos [of x] by (simp add: pos_divide_less_eq mult.commute)
qed

lemma significand_ge:
  assumes "- 1022 < exponent x"
  shows "2 ^ 52 \<le> \<bar>x\<bar> / ulp x"
proof -
  have "ulp x * 2 ^ 52 \<le> \<bar>x\<bar>" unfolding ulp_52 using assms by (rule exponent_normal)
  then show ?thesis using ulp_pos [of x] by (simp add: pos_le_divide_eq mult.commute)
qed

lemma round_double_0: "round_double 0 = 0"
  by (simp add: round_double_def round_half_even_def)

lemma round_double_nonneg:
  assumes "0 \<le> x"
  shows "0 \<le> round_double x"
proof -
  have "of_int 0 \<le> x / ulp x" using assms ulp_pos [of x] by simp
  then have "0 \<le> round_half_even (x / ulp x)" by (rule round_half_even_ge)
  then show ?thesis using ulp_pos [of x] by (simp add: round_double_def)
qed

lemma round_double_le_next:
  assumes "0 \<le> x"
  shows "round_double x \<le> 2 powi (exponent x + 1)"
proof -
  have "x / ulp x \<le> of_int (2 ^ 53)" using significand_less [of x] assms by simp
  then have "round_half_even (x / ulp x) \<le> 2 ^ 53" by (rule round_half_even_le)
  then have "(of_int (round_half_even (x / ulp x)) :: rat) \<le> of_int (2 ^ 53)"
    by (simp only: of_int_le_iff)
  then have "of_int (round_half_even (x / ulp x)) * ulp x \<le> of_int (2 ^ 53) * ulp x"
    using ulp_pos [of x] by (simp only: mult_le_cancel_right_pos)
  also have "\<dots> = ulp x * 2 ^ 53" by simp
  finally show ?thesis by (simp only: round_double_def ulp_53)
qed

lemma round_double_ge_this:
  assumes "0 \<le> x" "- 1022 < exponent x"
  shows "2 powi (exponent x) \<le> round_double x"
proof -
  have "of_int (2 ^ 52) \<le> x / ulp x" using significand_ge [OF assms(2)] assms(1) by simp
  then have "2 ^ 52 \<le> round_half_even (x / ulp x)" by (rule round_half_even_ge)
  then have "(of_int (2 ^ 52) :: rat) \<le> of_int (round_half_even (x / ulp x))"
    by (simp only: of_int_le_iff)
  then have "of_int (2 ^ 52) * ulp x \<le> of_int (round_half_even (x / ulp x)) * ulp x"
    using ulp_pos [of x] by (simp only: mult_le_cancel_right_pos)
  moreover have "of_int (2 ^ 52) * ulp x = ulp x * 2 ^ 52" by simp
  ultimately show ?thesis by (simp only: round_double_def ulp_52)
qed

lemma round_double_mono:
  assumes "0 \<le> x" "x \<le> y"
  shows "round_double x \<le> round_double y"
proof -
  from assms have y: "0 \<le> y" by simp
  from assms have "\<bar>x\<bar> \<le> \<bar>y\<bar>" by simp
  then have le: "exponent x \<le> exponent y" by (rule exponent_mono)
  show ?thesis
  proof (cases "exponent x = exponent y")
    case True
    then have u: "ulp x = ulp y" by (simp add: ulp_def)
    have "x / ulp y \<le> y / ulp y" using assms(2) ulp_pos [of y] by (simp add: divide_right_mono)
    then have "round_half_even (x / ulp y) \<le> round_half_even (y / ulp y)"
      by (rule round_half_even_mono)
    then have "(of_int (round_half_even (x / ulp y)) :: rat) \<le> of_int (round_half_even (y / ulp y))"
      by (simp only: of_int_le_iff)
    then show ?thesis using ulp_pos [of y] by (simp only: round_double_def u mult_le_cancel_right_pos)
  next
    case False
    with le have lt: "exponent x + 1 \<le> exponent y" "- 1022 < exponent y"
      using exponent_ge [of x] by simp_all
    have "round_double x \<le> 2 powi (exponent x + 1)" using assms(1) by (rule round_double_le_next)
    also have "\<dots> \<le> 2 powi (exponent y)" using lt(1) by (intro power_int_increasing) simp_all
    also have "\<dots> \<le> round_double y" using y lt(2) by (rule round_double_ge_this)
    finally show ?thesis .
  qed
qed

lemma round_double_eqI:
  assumes "- 1022 \<le> e" "2 powi e \<le> \<bar>x\<bar>" "\<bar>x\<bar> < 2 powi (e + 1)"
    and "round_half_even (x / 2 powi (e - 52)) = m"
  shows "round_double x = of_int m * 2 powi (e - 52)"
proof -
  have "exponent x = e" using assms(1-3) by (rule exponent_eq)
  with assms(4) show ?thesis by (simp add: round_double_def ulp_def)
qed

lemma round_double_idem:
  assumes "0 \<le> x"
  shows "round_double (round_double x) = round_double x"
proof -
  let ?e = "exponent x" and ?m = "round_half_even (x / ulp x)"
  let ?p = "round_double x"
  have p: "?p = of_int ?m * ulp x" by (simp add: round_double_def)
  have p0: "0 \<le> ?p" using assms by (rule round_double_nonneg)
  have exact: "round_double ?p = ?p" if "ulp ?p = ulp x"
  proof -
    have q: "?p / ulp x = of_int ?m" using ulp_pos [of x] by (simp add: p)
    have "round_double ?p = of_int (round_half_even (?p / ulp ?p)) * ulp ?p"
      by (rule round_double_def)
    also have "\<dots> = of_int (round_half_even (?p / ulp x)) * ulp x" by (simp only: that)
    also have "\<dots> = of_int (round_half_even (of_int ?m)) * ulp x" by (simp only: q)
    also have "\<dots> = of_int ?m * ulp x" by (simp only: round_half_even_of_int)
    also have "\<dots> = ?p" by (rule p [symmetric])
    finally show ?thesis .
  qed
  have up: "?p \<le> 2 powi (?e + 1)" using assms by (rule round_double_le_next)
  show ?thesis
  proof (cases "?p = 2 powi (?e + 1)")
    case True
    have "exponent ?p = ?e + 1"
    proof (rule exponent_eq)
      show "- 1022 \<le> ?e + 1" using exponent_ge [of x] by simp
      show "2 powi (?e + 1) \<le> \<bar>?p\<bar>" using True by simp
      have "(2::rat) powi (?e + 1) < 2 powi (?e + 1 + 1)" by (rule power_int_strict_increasing) simp_all
      then show "\<bar>?p\<bar> < 2 powi (?e + 1 + 1)" using True by simp
    qed
    then have u: "ulp ?p = 2 powi (?e + 1 - 52)" by (simp add: ulp_def)
    have "2 powi (?e + 1 - 52) * 2 ^ 52 = (2::rat) powi (?e + 1)"
      using two_powi_shift [of "?e + 1" 52] by simp
    then have "?p = of_int (2 ^ 52) * ulp ?p" using True u by simp
    then have "?p / ulp ?p = of_int (2 ^ 52)" using ulp_pos [of ?p] by (simp add: field_simps)
    then have "round_half_even (?p / ulp ?p) = 2 ^ 52" by (simp only: round_half_even_of_int)
    then have "round_double ?p = of_int (2 ^ 52) * ulp ?p" by (simp only: round_double_def [of ?p])
    with \<open>?p = of_int (2 ^ 52) * ulp ?p\<close> show ?thesis by simp
  next
    case False
    with up have lt: "?p < 2 powi (?e + 1)" by simp
    show ?thesis
    proof (cases "- 1022 < ?e")
      case normal: True
      have "2 powi ?e \<le> ?p" using assms normal by (rule round_double_ge_this)
      then have "exponent ?p = ?e" using lt p0 exponent_ge [of x] by (intro exponent_eq) simp_all
      then have "ulp ?p = ulp x" by (simp add: ulp_def)
      then show ?thesis by (rule exact)
    next
      case False
      with exponent_ge [of x] have e: "?e = - 1022" by simp
      show ?thesis
      proof (cases "?p < 2 powi (- 1022)")
        case True
        then have "exponent ?p = - 1022" using p0 by (intro exponent_subnormal) simp
        then have "ulp ?p = ulp x" using e by (simp add: ulp_def)
        then show ?thesis by (rule exact)
      next
        case False
        then have "2 powi ?e \<le> ?p" using e by simp
        then have "exponent ?p = ?e" using lt p0 exponent_ge [of x] by (intro exponent_eq) simp_all
        then have "ulp ?p = ulp x" by (simp add: ulp_def)
        then show ?thesis by (rule exact)
      qed
    qed
  qed
qed

lemma round_double_error:
  assumes "2 powi (- 1022) \<le> \<bar>x\<bar>"
  shows "\<bar>round_double x - x\<bar> \<le> \<bar>x\<bar> / 2 ^ 53"
proof -
  let ?q = "x / ulp x"
  have x: "x = ?q * ulp x" using ulp_pos [of x] by simp
  have "\<bar>round_double x - x\<bar> = \<bar>(of_int (round_half_even ?q) - ?q) * ulp x\<bar>"
    using ulp_pos [of x] by (simp add: round_double_def algebra_simps)
  also have "\<dots> = \<bar>of_int (round_half_even ?q) - ?q\<bar> * ulp x"
    using ulp_pos [of x] by (simp add: abs_mult)
  also have "\<dots> \<le> (1 / 2) * ulp x"
    using round_half_even_error [of ?q] ulp_pos [of x] by (simp only: mult_le_cancel_right_pos)
  finally have 1: "\<bar>round_double x - x\<bar> \<le> ulp x / 2" by simp
  have "ulp x * 2 ^ 52 \<le> \<bar>x\<bar>" unfolding ulp_52 using assms by (rule exponent_lower)
  then have "ulp x / 2 \<le> \<bar>x\<bar> / 2 ^ 53" by simp
  with 1 show ?thesis by simp
qed

subsection \<open>Some sums and quotients of doubles\<close>

lemma float_div_100_6: "float_div 100 6 = 4691249611844267 / 281474976710656"
proof -
  have r: "round_half_even ((100 / 6) / 2 powi (4 - 52)) = 4691249611844267"
    by (rule round_half_even_eqI) simp
  have "round_double (100 / 6) = of_int 4691249611844267 * 2 powi (4 - 52)"
    by (rule round_double_eqI [OF _ _ _ r]) simp_all
  then show ?thesis by (simp add: float_div_def)
qed

lemma float_div_50_3: "float_div 50 3 = 4691249611844267 / 281474976710656"
proof -
  have r: "round_half_even ((50 / 3) / 2 powi (4 - 52)) = 4691249611844267"
    by (rule round_half_even_eqI) simp
  have "round_double (50 / 3) = of_int 4691249611844267 * 2 powi (4 - 52)"
    by (rule round_double_eqI [OF _ _ _ r]) simp_all
  then show ?thesis by (simp add: float_div_def)
qed

lemma float_div_100_3: "float_div 100 3 = 4691249611844267 / 140737488355328"
proof -
  have r: "round_half_even ((100 / 3) / 2 powi (5 - 52)) = 4691249611844267"
    by (rule round_half_even_eqI) simp
  have "round_double (100 / 3) = of_int 4691249611844267 * 2 powi (5 - 52)"
    by (rule round_double_eqI [OF _ _ _ r]) simp_all
  then show ?thesis by (simp add: float_div_def)
qed

lemma float_add_sixth_1: "float_add 0 (4691249611844267 / 281474976710656) = 4691249611844267 / 281474976710656"
proof -
  have r: "round_half_even ((0 + 4691249611844267 / 281474976710656) / 2 powi (4 - 52)) = 4691249611844267"
    by (rule round_half_even_eqI) simp
  have "round_double (0 + 4691249611844267 / 281474976710656) = of_int 4691249611844267 * 2 powi (4 - 52)"
    by (rule round_double_eqI [OF _ _ _ r]) simp_all
  then show ?thesis by (simp add: float_add_def)
qed

lemma float_add_sixth_2: "float_add (4691249611844267 / 281474976710656) (4691249611844267 / 281474976710656) = 4691249611844267 / 140737488355328"
proof -
  have r: "round_half_even ((4691249611844267 / 281474976710656 + 4691249611844267 / 281474976710656) / 2 powi (5 - 52)) = 4691249611844267"
    by (rule round_half_even_eqI) simp
  have "round_double (4691249611844267 / 281474976710656 + 4691249611844267 / 281474976710656) = of_int 4691249611844267 * 2 powi (5 - 52)"
    by (rule round_double_eqI [OF _ _ _ r]) simp_all
  then show ?thesis by (simp add: float_add_def)
qed

lemma float_add_sixth_3: "float_add (4691249611844267 / 140737488355328) (4691249611844267 / 281474976710656) = 50"
proof -
  have r: "round_half_even ((4691249611844267 / 140737488355328 + 4691249611844267 / 281474976710656) / 2 powi (5 - 52)) = 7036874417766400"
    by (rule round_half_even_eqI) simp
  have "round_double (4691249611844267 / 140737488355328 + 4691249611844267 / 281474976710656) = of_int 7036874417766400 * 2 powi (5 - 52)"
    by (rule round_double_eqI [OF _ _ _ r]) simp_all
  then show ?thesis by (simp add: float_add_def)
qed

lemma float_add_sixth_4: "float_add 50 (4691249611844267 / 281474976710656) = 4691249611844267 / 70368744177664"
proof -
  have r: "round_half_even ((50 + 4691249611844267 / 281474976710656) / 2 powi (6 - 52)) = 4691249611844267"
    by (rule round_half_even_eqI) simp
  have "round_double (50 + 4691249611844267 / 281474976710656) = of_int 4691249611844267 * 2 powi (6 - 52)"
    by (rule round_double_eqI [OF _ _ _ r]) simp_all
  then show ?thesis by (simp add: float_add_def)
qed

lemma float_add_sixth_5: "float_add (4691249611844267 / 70368744177664) (4691249611844267 / 281474976710656) = 2932031007402667 / 35184372088832"
proof -
  have r: "round_half_even ((4691249611844267 / 70368744177664 + 4691249611844267 / 281474976710656) / 2 powi (6 - 52)) = 5864062014805334"
    by (rule round_half_even_eqI) simp
  have "round_double (4691249611844267 / 70368744177664 + 4691249611844267 / 281474976710656) = of_int 5864062014805334 * 2 powi (6 - 52)"
    by (rule round_double_eqI [OF _ _ _ r]) simp_all
  then show ?thesis by (simp add: float_add_def)
qed

lemma float_add_sixth_6: "float_add (2932031007402667 / 35184372088832) (4691249611844267 / 281474976710656) = 7036874417766401 / 70368744177664"
proof -
  have r: "round_half_even ((2932031007402667 / 35184372088832 + 4691249611844267 / 281474976710656) / 2 powi (6 - 52)) = 7036874417766401"
    by (rule round_half_even_eqI) simp
  have "round_double (2932031007402667 / 35184372088832 + 4691249611844267 / 281474976710656) = of_int 7036874417766401 * 2 powi (6 - 52)"
    by (rule round_double_eqI [OF _ _ _ r]) simp_all
  then show ?thesis by (simp add: float_add_def)
qed

lemma float_add_third_1: "float_add 0 (4691249611844267 / 140737488355328) = 4691249611844267 / 140737488355328"
proof -
  have r: "round_half_even ((0 + 4691249611844267 / 140737488355328) / 2 powi (5 - 52)) = 4691249611844267"
    by (rule round_half_even_eqI) simp
  have "round_double (0 + 4691249611844267 / 140737488355328) = of_int 4691249611844267 * 2 powi (5 - 52)"
    by (rule round_double_eqI [OF _ _ _ r]) simp_all
  then show ?thesis by (simp add: float_add_def)
qed

lemma float_add_third_2: "float_add (4691249611844267 / 140737488355328) (4691249611844267 / 140737488355328) = 4691249611844267 / 70368744177664"
proof -
  have r: "round_half_even ((4691249611844267 / 140737488355328 + 4691249611844267 / 140737488355328) / 2 powi (6 - 52)) = 4691249611844267"
    by (rule round_half_even_eqI) simp
  have "round_double (4691249611844267 / 140737488355328 + 4691249611844267 / 140737488355328) = of_int 4691249611844267 * 2 powi (6 - 52)"
    by (rule round_double_eqI [OF _ _ _ r]) simp_all
  then show ?thesis by (simp add: float_add_def)
qed

lemma float_add_third_3: "float_add (4691249611844267 / 70368744177664) (4691249611844267 / 140737488355328) = 100"
proof -
  have r: "round_half_even ((4691249611844267 / 70368744177664 + 4691249611844267 / 140737488355328) / 2 powi (6 - 52)) = 7036874417766400"
    by (rule round_half_even_eqI) simp
  have "round_double (4691249611844267 / 70368744177664 + 4691249611844267 / 140737488355328) = of_int 7036874417766400 * 2 powi (6 - 52)"
    by (rule round_double_eqI [OF _ _ _ r]) simp_all
  then show ?thesis by (simp add: float_add_def)
qed

lemma float_add_0_100: "float_add 0 100 = 100"
proof -
  have r: "round_half_even ((0 + 100) / 2 powi (6 - 52)) = 7036874417766400"
    by (rule round_half_even_eqI) simp
  have "round_double (0 + 100) = of_int 7036874417766400 * 2 powi (6 - 52)"
    by (rule round_double_eqI [OF _ _ _ r]) simp_all
  then show ?thesis by (simp add: float_add_def)
qed

subsection \<open>Framed reads\<close>

lemma nonblocking_read_bytes_of:
  "nonblocking_read f n t = (buf, f', dt) \<Longrightarrow>
     bytes_of f = buf @ bytes_of f' \<and> length buf \<le> n"
  by (induction f n t arbitrary: buf f' dt rule: nonblocking_read.induct)
     (auto split: if_splits prod.splits)

lemma from_bytes_two: "from_bytes [b0, b1] = unat b0 * 256 + unat b1"
  by (simp add: from_bytes_def)

lemma unat_byte_le: "unat (b :: byte) \<le> 255"
  using unsigned_less [of b, where ?'a = nat] by simp

text \<open>
  Claim C8. An exact read of \<open>n\<close> bytes returns a buffer of exactly \<open>n\<close> bytes or raises
  \<open>ValueError\<close>; it never returns a shorter buffer. \<open>read_int\<close> fails exactly as the
  exact read of 2 bytes fails, and when it returns it returns the two bytes of that read as
  an unsigned big-endian number, which is at most 65535.
\<close>

theorem read_bytes_exact_and_read_int:
  "(case read_bytes f n timeout True :: ('x error + byte list) \<times> pipe \<times> nat of
      (Inl e, f', dt) \<Rightarrow> e = ValueError
    | (Inr buf, f', dt) \<Rightarrow> length buf = n)
   \<and> (case read_int f timeout :: ('x error + nat) \<times> pipe \<times> nat of
      (Inl e, f', dt) \<Rightarrow> read_bytes f 2 timeout True = (Inl e, f', dt)
    | (Inr v, f', dt) \<Rightarrow>
        v \<le> 65535 \<and>
        (\<exists>b0 b1. read_bytes f 2 timeout True = (Inr [b0, b1] :: 'x error + byte list, f', dt)
                 \<and> v = unat b0 * 256 + unat b1))"
proof
  show "case read_bytes f n timeout True :: ('x error + byte list) \<times> pipe \<times> nat of
      (Inl e, f', dt) \<Rightarrow> e = ValueError
    | (Inr buf, f', dt) \<Rightarrow> length buf = n"
    by (simp add: read_bytes_def split: prod.splits)
next
  obtain buf f' dt where nb: "nonblocking_read f 2 timeout = (buf, f', dt)"
    by (cases "nonblocking_read f 2 timeout") auto
  show "case read_int f timeout :: ('x error + nat) \<times> pipe \<times> nat of
      (Inl e, f', dt) \<Rightarrow> read_bytes f 2 timeout True = (Inl e, f', dt)
    | (Inr v, f', dt) \<Rightarrow>
        v \<le> 65535 \<and>
        (\<exists>b0 b1. read_bytes f 2 timeout True = (Inr [b0, b1] :: 'x error + byte list, f', dt)
                 \<and> v = unat b0 * 256 + unat b1)"
  proof (cases "length buf = 2")
    case False
    then show ?thesis using nb by (simp add: read_int_def read_bytes_def)
  next
    case True
    then obtain b0 b1 where buf: "buf = [b0, b1]"
      by (cases buf; cases "tl buf") auto
    have "unat b0 * 256 + unat b1 \<le> 65535"
      using unat_byte_le [of b0] unat_byte_le [of b1] by arith
    then show ?thesis using nb buf
      by (simp add: read_int_def read_bytes_def from_bytes_two)
  qed
qed

subsection \<open>What the session leaves untouched\<close>

lemma on_stdout_p_stdin: "on_stdout rd s = (r, s') \<Longrightarrow> p_stdin s' = p_stdin s"
  by (auto simp: on_stdout_def split: prod.splits)

lemma convert_page_p_stdin:
  "convert_page sw n per_page s page = (r, s') \<Longrightarrow> p_stdin s' = p_stdin s"
  by (auto simp: convert_page_def on_stdout_def Let_def split: prod.splits sum.splits)

lemma convert_pages_p_stdin:
  "convert_pages sw n per_page pages s = (r :: 'x error + unit, s') \<Longrightarrow> p_stdin s' = p_stdin s"
proof (induction pages arbitrary: s)
  case Nil
  then show ?case by simp
next
  case (Cons page pages)
  obtain r1 :: "'x error + unit" and s1 where
    step: "convert_page sw n per_page s page = (r1, s1)"
    by (cases "convert_page sw n per_page s page :: ('x error + unit) \<times> state") auto
  with Cons convert_page_p_stdin [OF step] show ?case
    by (cases r1) auto
qed

lemma doc_to_pixels_p_stdin:
  "doc_to_pixels d w document ocr_lang s = (r, s') \<Longrightarrow> p_stdin s' = p_stdin s"
  by (auto simp: doc_to_pixels_def on_stdout_def Let_def
           split: prod.splits sum.splits error.splits if_splits
           dest: convert_pages_p_stdin)

lemma finish_p_stdin: "finish d ocr_lang s = (r, s') \<Longrightarrow> p_stdin s' = p_stdin s"
  by (auto simp: finish_def on_stderr_def Let_def
           split: prod.splits option.splits if_splits)

lemma start_worker_frame:
  "start_worker d document s = (Inr u, s') \<Longrightarrow>
     p_stdout s' = p_stdout s \<and> files s' = files s \<and> progress s' = progress s
     \<and> percentage s' = percentage s \<and> clock s' = clock s"
  by (auto simp: start_worker_def teleport_dz_module_def split: if_splits sum.splits)

lemma convert_p_stdin:
  "p_stdin (snd (convert d w document ocr_lang))
     = p_stdin (snd (start_worker d document (initial w)))"
proof (cases "start_worker d document (initial w)")
  case (Pair r s)
  show ?thesis
  proof (cases r)
    case (Inl e)
    with Pair show ?thesis by (simp add: convert_def)
  next
    case (Inr u)
    obtain r' s' where px: "doc_to_pixels d w document ocr_lang s = (r', s')"
      by (cases "doc_to_pixels d w document ocr_lang s") auto
    obtain r'' s'' where fin: "finish d ocr_lang s' = (r'', s'')"
      by (cases "finish d ocr_lang s'") auto
    show ?thesis
      using Pair Inr px fin doc_to_pixels_p_stdin [OF px] finish_p_stdin [OF fin]
      by (cases r') (auto simp: convert_def split: bool.splits)
  qed
qed

subsection \<open>The page count\<close>

text \<open>
  Claim C2. The claim asks for an explicit, named failure when the page count is 0. The
  code returns \<^verbatim>\<open>False\<close> (line 130, under the comment "FIXME: Fail loudly in that case"):
  when the worker writes the two bytes 0, 0 the session ends with the plain value
  \<open>Inr False\<close>, no exception, no progress report and no file.
\<close>

theorem zero_pages_returns_False:
  "convert scenario_deps \<lparr>writes_stdout = [Data 0, Data 0], writes_stderr = [], returncode = 0\<rparr>
      [] None =
     (Inr False,
      \<lparr>p_stdin = [], p_stdout = [], p_stderr = [], stdout_closed = False, clock = 0,
       files = [], percentage = 0, progress = [], output_file = None\<rparr>)"
  by (simp add: scenario_deps_def session_defs)

text \<open>
  Claim C3. When the session has started the worker and the read of the 2-byte page count
  comes back short, the session raises the exception that \<open>exception_from_error_code\<close>
  builds from the worker's exit status; in particular the \<open>ValueError\<close> of the short read
  does not leave the session.
\<close>

theorem short_page_count_read_is_diagnosed:
  fixes d :: "'x deps"
  assumes started: "fst (start_worker d document (initial w)) = Inr ()"
    and short: "length (fst (nonblocking_read (writes_stdout w) 2
                  (calculate_timeout d (of_nat (length document) / 1024 ^ 2) None
                   + STARTUP_TIME_SECONDS))) < 2"
  shows "fst (convert d w document ocr_lang)
           = Inl (Raised (exception_from_error_code d (returncode w)))"
proof -
  obtain s where sw: "start_worker d document (initial w) = (Inr (), s)"
    using started by (cases "start_worker d document (initial w)") auto
  have out: "p_stdout s = writes_stdout w"
    using start_worker_frame [OF sw] by (simp add: initial_def)
  show ?thesis
    using short sw out
    by (auto simp: convert_def doc_to_pixels_def on_stdout_def read_int_def read_bytes_def
             Let_def split: prod.splits)
qed

theorem short_page_count_read_witness:
  "fst (convert scenario_deps \<lparr>writes_stdout = [Data 0], writes_stderr = [], returncode = 137\<rparr>
          [37, 80, 68, 70] None) = Inl (Raised 137)"
  using short_page_count_read_is_diagnosed
          [of scenario_deps "[37, 80, 68, 70]"
              "\<lparr>writes_stdout = [Data 0], writes_stderr = [], returncode = 137\<rparr>" None]
  by (simp add: scenario_deps_def start_worker_def)

subsection \<open>Development mode: the module is sent first\<close>

lemma unat_byte_of_nat: "unat (word_of_nat k :: byte) = k mod 256"
  by (simp add: unat_of_nat)

lemma to_bytes_4:
  "n < 2 ^ 32 \<Longrightarrow>
     to_bytes n 4 = (Inr [word_of_nat (n div 16777216), word_of_nat (n div 65536),
                         word_of_nat (n div 256), word_of_nat n] :: 'x error + byte list)"
  by (simp add: to_bytes_def upt_conv_Cons)

lemma byte_digits:
  fixes n :: nat
  shows "n div 65536 = n div 16777216 * 256 + n div 65536 mod 256"
    and "n div 256 = n div 65536 * 256 + n div 256 mod 256"
    and "n = n div 256 * 256 + n mod 256"
proof -
  have "n div 16777216 = n div 65536 div 256" by (simp add: div_mult2_eq)
  then show "n div 65536 = n div 16777216 * 256 + n div 65536 mod 256" by simp
  have "n div 65536 = n div 256 div 256" by (simp add: div_mult2_eq)
  then show "n div 256 = n div 65536 * 256 + n div 256 mod 256" by simp
  show "n = n div 256 * 256 + n mod 256" by simp
qed

lemma from_bytes_4:
  assumes "n < 2 ^ 32"
  shows "from_bytes [word_of_nat (n div 16777216), word_of_nat (n div 65536),
                     word_of_nat (n div 256), word_of_nat n :: byte] = n"
proof -
  have small: "n div 16777216 mod 256 = n div 16777216"
    using assms by (simp add: less_mult_imp_div_less)
  have "from_bytes [word_of_nat (n div 16777216), word_of_nat (n div 65536),
                     word_of_nat (n div 256), word_of_nat n :: byte]
        = ((n div 16777216 * 256 + n div 65536 mod 256) * 256 + n div 256 mod 256) * 256
          + n mod 256"
    by (simp add: from_bytes_def unat_byte_of_nat small)
  also have "\<dots> = (n div 65536 * 256 + n div 256 mod 256) * 256 + n mod 256"
    using byte_digits(1) [of n] by simp
  also have "\<dots> = n div 256 * 256 + n mod 256"
    using byte_digits(2) [of n] by simp
  also have "\<dots> = n" by simp
  finally show ?thesis .
qed

text \<open>
  Claim C9. In development mode, with a module archive whose length fits in four bytes,
  the worker's standard input receives a 4-byte big-endian prefix that decodes to the
  length of the archive, then the archive, then the document; for an archive of 10 bytes
  the prefix is 0, 0, 0, 10. This holds however the session ends afterwards.
\<close>

theorem dev_mode_stdin_is_length_blob_document:
  fixes d :: "'x deps"
  assumes dev: "dangerzone_dev d"
    and fits: "length (zipfile_value d) < 2 ^ 32"
  shows "\<exists>prefix. to_bytes (length (zipfile_value d)) 4 = (Inr prefix :: 'x error + byte list)
           \<and> length prefix = 4
           \<and> from_bytes prefix = length (zipfile_value d)
           \<and> p_stdin (snd (convert d w document ocr_lang))
               = prefix @ zipfile_value d @ document
           \<and> (length (zipfile_value d) = 10 \<longrightarrow> prefix = [0, 0, 0, 10])"
proof -
  let ?n = "length (zipfile_value d)"
  let ?prefix = "[word_of_nat (?n div 16777216), word_of_nat (?n div 65536),
                  word_of_nat (?n div 256), word_of_nat ?n] :: byte list"
  have tb: "to_bytes ?n 4 = (Inr ?prefix :: 'x error + byte list)"
    using fits by (rule to_bytes_4)
  have "p_stdin (snd (start_worker d document (initial w)))
          = ?prefix @ zipfile_value d @ document"
    using dev tb by (simp add: start_worker_def teleport_dz_module_def initial_def)
  then have "p_stdin (snd (convert d w document ocr_lang))
          = ?prefix @ zipfile_value d @ document"
    by (simp add: convert_p_stdin)
  moreover have "from_bytes ?prefix = ?n"
    using fits by (rule from_bytes_4)
  moreover have "?n = 10 \<longrightarrow> ?prefix = [0, 0, 0, 10]"
    by simp
  ultimately show ?thesis using tb by simp
qed

theorem dev_mode_stdin_witness:
  "p_stdin (snd (convert (scenario_deps\<lparr>dangerzone_dev := True,
                                        zipfile_value := [80, 75, 3, 4, 5, 6, 7, 8, 9, 10]\<rparr>)
                   \<lparr>writes_stdout = [], writes_stderr = [], returncode = 1\<rparr>
                   [37, 80, 68, 70] None))
     = [0, 0, 0, 10] @ [80, 75, 3, 4, 5, 6, 7, 8, 9, 10] @ [37, 80, 68, 70]"
  using dev_mode_stdin_is_length_blob_document
          [of "scenario_deps\<lparr>dangerzone_dev := True,
                               zipfile_value := [80, 75, 3, 4, 5, 6, 7, 8, 9, 10]\<rparr>"
              "\<lparr>writes_stdout = [], writes_stderr = [], returncode = 1\<rparr>"
              "[37, 80, 68, 70]" None]
  by (auto simp: scenario_deps_def)

subsection \<open>Decoding the pages\<close>

lemma from_bytes_uint16: "v < 65536 \<Longrightarrow> from_bytes (uint16 v) = v"
proof -
  assume "v < 65536"
  then have "v div 256 mod 256 = v div 256" by simp
  then show ?thesis
    by (simp add: uint16_def from_bytes_two unat_byte_of_nat)
qed

lemma uint16_from_bytes: "uint16 (from_bytes [b0, b1]) = [b0, b1]"
proof -
  have lt: "unat b1 < 256" using unat_byte_le [of b1] by simp
  have z: "(256 :: byte) = 0" by simp
  have "(word_of_nat (unat b0 * 256 + unat b1) :: byte) = b1"
    by (simp add: z)
  moreover have "(unat b0 * 256 + unat b1) div 256 = unat b0"
    using lt by simp
  ultimately show ?thesis
    by (simp add: uint16_def from_bytes_two)
qed

lemma read_bytes_Inr:
  assumes "read_bytes f n t True = (Inr buf :: 'x error + byte list, f', dt)"
  shows "length buf = n \<and> bytes_of f = buf @ bytes_of f'"
proof -
  obtain b g e where nb: "nonblocking_read f n t = (b, g, e)"
    by (cases "nonblocking_read f n t") auto
  with assms have "b = buf \<and> g = f' \<and> length b = n"
    by (auto simp: read_bytes_def split: if_splits)
  with nonblocking_read_bytes_of [OF nb] show ?thesis by auto
qed

lemma read_int_Inr:
  assumes "read_int f t = (Inr v :: 'x error + nat, f', dt)"
  shows "v < 65536 \<and> bytes_of f = uint16 v @ bytes_of f'"
proof -
  from assms obtain buf where
    rb: "read_bytes f 2 t True = (Inr buf :: 'x error + byte list, f', dt)"
    and v: "v = from_bytes buf"
    by (auto simp: read_int_def split: prod.splits sum.splits)
  from read_bytes_Inr [OF rb] have len: "length buf = 2"
    and bs: "bytes_of f = buf @ bytes_of f'" by simp_all
  from len obtain b0 b1 where buf: "buf = [b0, b1]"
    by (cases buf; cases "tl buf") auto
  have "unat b0 * 256 + unat b1 \<le> 65535"
    using unat_byte_le [of b0] unat_byte_le [of b1] by arith
  then show ?thesis
    using v buf bs uint16_from_bytes [of b0 b1] by (simp add: from_bytes_two)
qed


text \<open>One page of the loop, whatever the worker sends.\<close>

lemma convert_page_cases:
  assumes "convert_page sw n per_page s page = (r :: 'x error + unit, s')"
  shows "(r = Inl ValueError \<and> files s' = files s \<and> progress s' = progress s
            \<and> percentage s' = percentage s)
         \<or> (\<exists>p. r = Inr () \<and> well_formed p
                 \<and> bytes_of (p_stdout s) = wire_page p @ bytes_of (p_stdout s')
                 \<and> files s' = files s @ staged_page page p
                 \<and> percentage s' = float_add (percentage s) per_page
                 \<and> progress s' = progress s @
                     [(False, ''Converting page '' @ str page @ ''/'' @ str n @ '' to pixels'',
                       float_add (percentage s) per_page)])"
proof -
  let ?t = "remaining sw (clock s)"
  obtain r1 :: "'x error + nat" and f1 d1 where
    i1: "read_int (p_stdout s) ?t = (r1, f1, d1)"
    by (cases "read_int (p_stdout s) ?t :: ('x error + nat) \<times> pipe \<times> nat") auto
  let ?s1 = "s\<lparr>p_stdout := f1, clock := clock s + d1\<rparr>"
  show ?thesis
  proof (cases r1)
    case (Inl e)
    then have "e = ValueError"
      using i1 by (auto simp: read_int_def read_bytes_def split: prod.splits if_splits)
    with Inl i1 assms show ?thesis
      by (auto simp: convert_page_def on_stdout_def)
  next
    case w: (Inr width)
    let ?t1 = "remaining sw (clock ?s1)"
    obtain r2 :: "'x error + nat" and f2 d2 where
      i2: "read_int f1 ?t1 = (r2, f2, d2)"
      by (cases "read_int f1 ?t1 :: ('x error + nat) \<times> pipe \<times> nat") auto
    let ?s2 = "?s1\<lparr>p_stdout := f2, clock := clock ?s1 + d2\<rparr>"
    show ?thesis
    proof (cases r2)
      case (Inl e)
      then have "e = ValueError"
        using i2 by (auto simp: read_int_def read_bytes_def split: prod.splits if_splits)
      with Inl w i1 i2 assms show ?thesis
        by (auto simp: convert_page_def on_stdout_def)
    next
      case h: (Inr height)
      let ?t2 = "remaining sw (clock ?s2)"
      obtain r3 :: "'x error + byte list" and f3 d3 where
        i3: "read_bytes f2 (width * height * 3) ?t2 True = (r3, f3, d3)"
        by (cases "read_bytes f2 (width * height * 3) ?t2 True
                     :: ('x error + byte list) \<times> pipe \<times> nat") auto
      show ?thesis
      proof (cases r3)
        case (Inl e)
        then have "e = ValueError"
          using i3 by (auto simp: read_bytes_def split: prod.splits if_splits)
        with Inl w h i1 i2 i3 assms show ?thesis
          by (auto simp: convert_page_def on_stdout_def)
      next
        case px: (Inr pixels)
        have a: "width < 65536 \<and> bytes_of (p_stdout s) = uint16 width @ bytes_of f1"
          using read_int_Inr [of "p_stdout s" ?t width f1 d1] i1 w by simp
        have b: "height < 65536 \<and> bytes_of f1 = uint16 height @ bytes_of f2"
          using read_int_Inr [of f1 ?t1 height f2 d2] i2 h by simp
        have c: "length pixels = width * height * 3 \<and> bytes_of f2 = pixels @ bytes_of f3"
          using read_bytes_Inr [of f2 "width * height * 3" ?t2 pixels f3 d3] i3 px by simp
        have "r = Inr () \<and> well_formed (width, height, pixels)
                 \<and> bytes_of (p_stdout s) = wire_page (width, height, pixels) @ bytes_of (p_stdout s')
                 \<and> files s' = files s @ staged_page page (width, height, pixels)
                 \<and> percentage s' = float_add (percentage s) per_page
                 \<and> progress s' = progress s @
                     [(False, ''Converting page '' @ str page @ ''/'' @ str n @ '' to pixels'',
                       float_add (percentage s) per_page)]"
          using a b c w h px i1 i2 i3 assms
          by (auto simp: convert_page_def on_stdout_def Let_def)
        then show ?thesis by blast
      qed
    qed
  qed
qed


lemma percentages_append [simp]:
  "percentages (xs @ ys) = percentages xs @ percentages ys"
  by (simp add: percentages_def)

lemma percentages_single [simp]: "percentages [(e, m, p)] = [p]"
  by (simp add: percentages_def)

text \<open>The loop, whatever the worker sends: the pages decoded before it ends.\<close>

lemma convert_pages_cases:
  assumes "convert_pages sw n per_page [k..<k + m] s = (r :: 'x error + unit, s')"
  shows "\<exists>pages rest.
           length pages \<le> m
         \<and> (r = Inr () \<and> length pages = m \<and> rest = bytes_of (p_stdout s')
             \<or> r = Inl ValueError \<and> length pages < m)
         \<and> (\<forall>p \<in> set pages. well_formed p)
         \<and> bytes_of (p_stdout s) = concat (map wire_page pages) @ rest
         \<and> files s' = files s @ staged k pages
         \<and> progress s'
             = progress s @ page_reports n k (percentage s) per_page (length pages)
         \<and> percentage s' = last (percentage s # accumulate (percentage s) per_page (length pages))"
  using assms
proof (induction m arbitrary: k s)
  case 0
  then have "r = Inr () \<and> s' = s" by simp
  then have "length ([] :: page list) \<le> 0
         \<and> (r = Inr () \<and> length ([] :: page list) = 0 \<and> bytes_of (p_stdout s) = bytes_of (p_stdout s')
             \<or> r = Inl ValueError \<and> length ([] :: page list) < 0)
         \<and> (\<forall>p \<in> set ([] :: page list). well_formed p)
         \<and> bytes_of (p_stdout s) = concat (map wire_page []) @ bytes_of (p_stdout s)
         \<and> files s' = files s @ staged k []
         \<and> progress s'
             = progress s @ page_reports n k (percentage s) per_page (length ([] :: page list))
         \<and> percentage s' = last (percentage s # accumulate (percentage s) per_page (length ([] :: page list)))"
    by simp
  then show ?case by blast
next
  case (Suc m)
  have range: "[k..<k + Suc m] = k # [Suc k..<Suc k + m]"
    by (simp add: upt_conv_Cons)
  obtain r1 :: "'x error + unit" and s1 where
    step: "convert_page sw n per_page s k = (r1, s1)"
    by (cases "convert_page sw n per_page s k :: ('x error + unit) \<times> state") auto
  from convert_page_cases [OF step] show ?case
  proof
    assume fail: "r1 = Inl ValueError \<and> files s1 = files s \<and> progress s1 = progress s
                    \<and> percentage s1 = percentage s"
    with Suc.prems range step have "r = Inl ValueError \<and> s' = s1" by simp
    with fail have "length ([] :: page list) \<le> Suc m
         \<and> (r = Inr () \<and> length ([] :: page list) = Suc m \<and> bytes_of (p_stdout s) = bytes_of (p_stdout s')
             \<or> r = Inl ValueError \<and> length ([] :: page list) < Suc m)
         \<and> (\<forall>p \<in> set ([] :: page list). well_formed p)
         \<and> bytes_of (p_stdout s) = concat (map wire_page []) @ bytes_of (p_stdout s)
         \<and> files s' = files s @ staged k []
         \<and> progress s'
             = progress s @ page_reports n k (percentage s) per_page (length ([] :: page list))
         \<and> percentage s' = last (percentage s # accumulate (percentage s) per_page (length ([] :: page list)))"
      by simp
    then show ?thesis by blast
  next
    assume "\<exists>p. r1 = Inr () \<and> well_formed p
                 \<and> bytes_of (p_stdout s) = wire_page p @ bytes_of (p_stdout s1)
                 \<and> files s1 = files s @ staged_page k p
                 \<and> percentage s1 = float_add (percentage s) per_page
                 \<and> progress s1 = progress s @
                     [(False, ''Converting page '' @ str k @ ''/'' @ str n @ '' to pixels'',
                       float_add (percentage s) per_page)]"
    then obtain p where ok: "r1 = Inr ()" and wf: "well_formed p"
      and bs: "bytes_of (p_stdout s) = wire_page p @ bytes_of (p_stdout s1)"
      and fs: "files s1 = files s @ staged_page k p"
      and pc: "percentage s1 = float_add (percentage s) per_page"
      and pr: "progress s1 = progress s @
                     [(False, ''Converting page '' @ str k @ ''/'' @ str n @ '' to pixels'',
                       float_add (percentage s) per_page)]"
      by blast
    from Suc.prems range step ok
    have rest: "convert_pages sw n per_page [Suc k..<Suc k + m] s1 = (r, s')" by simp
    from Suc.IH [OF rest] obtain pages rest where
      len: "length pages \<le> m"
      and res: "r = Inr () \<and> length pages = m \<and> rest = bytes_of (p_stdout s')
                 \<or> r = Inl ValueError \<and> length pages < m"
      and wfs: "\<forall>p \<in> set pages. well_formed p"
      and bs': "bytes_of (p_stdout s1) = concat (map wire_page pages) @ rest"
      and fs': "files s' = files s1 @ staged (Suc k) pages"
      and pr': "progress s'
             = progress s1 @ page_reports n (Suc k) (percentage s1) per_page (length pages)"
      and pc': "percentage s' = last (percentage s1 # accumulate (percentage s1) per_page (length pages))"
      by blast
    have c1: "length (p # pages) \<le> Suc m" using len by simp
    have c2: "r = Inr () \<and> length (p # pages) = Suc m \<and> rest = bytes_of (p_stdout s')
             \<or> r = Inl ValueError \<and> length (p # pages) < Suc m"
      using res by auto
    have c3: "\<forall>q \<in> set (p # pages). well_formed q" using wf wfs by simp
    have c4: "bytes_of (p_stdout s) = concat (map wire_page (p # pages)) @ rest"
      using bs bs' by simp
    have c5: "files s' = files s @ staged k (p # pages)"
      using fs fs' by simp
    have c6: "progress s'
             = progress s @ page_reports n k (percentage s) per_page (length (p # pages))"
      using pr pr' pc by simp
    have c7: "percentage s' = last (percentage s # accumulate (percentage s) per_page (length (p # pages)))"
      using pc pc' by (simp add: algebra_simps)
    show ?thesis
      by (rule exI [of _ "p # pages"], rule exI [of _ rest]) (intro conjI c1 c2 c3 c4 c5 c6 c7)
  qed
qed

lemma uint16_inject:
  assumes "a < 65536" "b < 65536" "uint16 a = uint16 b"
  shows "a = b"
proof -
  have "a = from_bytes (uint16 a)" by (rule from_bytes_uint16 [OF assms(1), symmetric])
  also have "\<dots> = from_bytes (uint16 b)" by (simp only: assms(3))
  also have "\<dots> = b" by (rule from_bytes_uint16 [OF assms(2)])
  finally show ?thesis .
qed

lemma wire_page_unique:
  assumes "well_formed p" "well_formed q" "wire_page p @ xs = wire_page q @ ys"
  shows "p = q \<and> xs = ys"
proof -
  obtain w h px where p: "p = (w, h, px)" by (cases p) auto
  obtain w' h' px' where q: "q = (w', h', px')" by (cases q) auto
  from assms p q have eq: "uint16 w @ uint16 h @ px @ xs = uint16 w' @ uint16 h' @ px' @ ys"
    by simp
  have l: "length (uint16 w) = length (uint16 w')" "length (uint16 h) = length (uint16 h')"
    by (simp_all add: uint16_def)
  from eq l(1) have w: "uint16 w = uint16 w'" and eq1: "uint16 h @ px @ xs = uint16 h' @ px' @ ys"
    by simp_all
  from eq1 l(2) have h: "uint16 h = uint16 h'" and eq2: "px @ xs = px' @ ys"
    by simp_all
  have ww: "w = w'" using uint16_inject [OF _ _ w] assms(1,2) p q by simp
  have hh: "h = h'" using uint16_inject [OF _ _ h] assms(1,2) p q by simp
  have "length px = length px'" using assms(1,2) p q ww hh by simp
  with eq2 have "px = px' \<and> xs = ys" by simp
  with ww hh p q show ?thesis by simp
qed

lemma wire_pages_unique:
  assumes "\<forall>p \<in> set ps. well_formed p" "\<forall>q \<in> set qs. well_formed q"
    and "length ps = length qs"
    and "concat (map wire_page ps) @ xs = concat (map wire_page qs) @ ys"
  shows "ps = qs \<and> xs = ys"
  using assms
proof (induction ps arbitrary: qs)
  case Nil
  then show ?case by simp
next
  case (Cons p ps)
  then obtain q qs' where qs: "qs = q # qs'" by (cases qs) auto
  from Cons.prems qs have
    "wire_page p @ (concat (map wire_page ps) @ xs)
       = wire_page q @ (concat (map wire_page qs') @ ys)" by simp
  with wire_page_unique [of p q] Cons.prems(1,2) qs
  have pq: "p = q" and tl: "concat (map wire_page ps) @ xs = concat (map wire_page qs') @ ys"
    by auto
  from Cons.IH [OF _ _ _ tl] Cons.prems qs have "ps = qs' \<and> xs = ys" by simp
  with pq qs show ?case by simp
qed

subsection \<open>The session as a whole\<close>

lemma convert_pages_stdout_closed:
  "convert_pages sw n per_page pages s = (r :: 'x error + unit, s') \<Longrightarrow>
     stdout_closed s' = stdout_closed s"
proof (induction pages arbitrary: s)
  case Nil
  then show ?case by simp
next
  case (Cons page pages)
  obtain r1 :: "'x error + unit" and s1 where
    step: "convert_page sw n per_page s page = (r1, s1)"
    by (cases "convert_page sw n per_page s page :: ('x error + unit) \<times> state") auto
  have "stdout_closed s1 = stdout_closed s"
    using step
    by (auto simp: convert_page_def on_stdout_def Let_def split: prod.splits sum.splits)
  with Cons step show ?case
    by (cases r1) auto
qed

text \<open>The page count and the loop, whatever the worker sends.\<close>

lemma doc_to_pixels_cases:
  fixes d :: "'x deps"
  assumes "doc_to_pixels d w document ocr_lang s = (r, s')"
  shows "stdout_closed s' = stdout_closed s \<and>
         ((r = Inl (Raised (exception_from_error_code d (returncode w))) \<or> r = Inr False)
            \<and> files s' = files s \<and> progress s' = progress s
          \<or> (\<exists>n pages rest.
                0 < n \<and> n < 65536 \<and> length pages \<le> n
              \<and> (r = Inr True \<and> length pages = n \<and> rest = bytes_of (p_stdout s')
                  \<or> r = Inl ValueError \<and> length pages < n)
              \<and> (\<forall>p \<in> set pages. well_formed p)
              \<and> bytes_of (p_stdout s) = uint16 n @ concat (map wire_page pages) @ rest
              \<and> files s' = files s @ staged 1 pages
              \<and> progress s'
                  = progress s
                    @ page_reports n 1 (percentage s) (percentage_per_page ocr_lang n) (length pages)
              \<and> percentage s'
                  = last (percentage s # accumulate (percentage s) (percentage_per_page ocr_lang n) (length pages))))"
proof -
  let ?t = "calculate_timeout d (of_nat (length document) / 1024 ^ 2) None + STARTUP_TIME_SECONDS"
  obtain r0 :: "'x error + nat" and f0 d0 where
    i0: "read_int (p_stdout s) ?t = (r0, f0, d0)"
    by (cases "read_int (p_stdout s) ?t :: ('x error + nat) \<times> pipe \<times> nat") auto
  let ?s1 = "s\<lparr>p_stdout := f0, clock := clock s + d0\<rparr>"
  show ?thesis
  proof (cases r0)
    case (Inl e)
    then have "e = ValueError"
      using i0 by (auto simp: read_int_def read_bytes_def split: prod.splits if_splits)
    with Inl i0 assms show ?thesis
      by (auto simp: doc_to_pixels_def on_stdout_def Let_def)
  next
    case (Inr n)
    have hd: "n < 65536 \<and> bytes_of (p_stdout s) = uint16 n @ bytes_of f0"
      using read_int_Inr [of "p_stdout s" ?t n f0 d0] i0 Inr by simp
    show ?thesis
    proof (cases "n = 0")
      case True
      with Inr i0 assms show ?thesis
        by (auto simp: doc_to_pixels_def on_stdout_def Let_def)
    next
      case False
      let ?pp = "percentage_per_page ocr_lang n"
      let ?sw = "\<lparr>sw_timeout = calculate_timeout d (of_nat (length document) / 1024 ^ 2) (Some n),
                   sw_start = clock ?s1\<rparr>"
      obtain r2 :: "'x error + unit" and s2 where
        loop: "convert_pages ?sw n ?pp [1..<1 + n] ?s1 = (r2, s2)"
        by (cases "convert_pages ?sw n ?pp [1..<1 + n] ?s1 :: ('x error + unit) \<times> state") auto
      have res: "s' = s2 \<and> (r2 = Inr () \<longrightarrow> r = Inr True) \<and> (r2 = Inl ValueError \<longrightarrow> r = Inl ValueError)"
        using assms Inr i0 False loop
        by (auto simp: doc_to_pixels_def on_stdout_def Let_def add.commute split: sum.splits)
      from convert_pages_cases [OF loop] obtain pages rest where
        len: "length pages \<le> n"
        and out: "r2 = Inr () \<and> length pages = n \<and> rest = bytes_of (p_stdout s2)
                   \<or> r2 = Inl ValueError \<and> length pages < n"
        and wfs: "\<forall>p \<in> set pages. well_formed p"
        and bs: "bytes_of (p_stdout ?s1) = concat (map wire_page pages) @ rest"
        and fs: "files s2 = files ?s1 @ staged 1 pages"
        and pr: "progress s2
                   = progress ?s1 @ page_reports n 1 (percentage ?s1) ?pp (length pages)"
        and pc: "percentage s2 = last (percentage ?s1 # accumulate (percentage ?s1) ?pp (length pages))"
        by blast
      have closed: "stdout_closed s' = stdout_closed s"
        using convert_pages_stdout_closed [OF loop] res by simp
      have c2: "r = Inr True \<and> length pages = n \<and> rest = bytes_of (p_stdout s')
                  \<or> r = Inl ValueError \<and> length pages < n"
        using out res by auto
      have c4: "bytes_of (p_stdout s) = uint16 n @ concat (map wire_page pages) @ rest"
        using hd bs by simp
      have c5: "files s' = files s @ staged 1 pages" using fs res by simp
      have c6: "progress s'
                  = progress s @ page_reports n 1 (percentage s) ?pp (length pages)"
        using pr res by simp
      have c7: "percentage s' = last (percentage s # accumulate (percentage s) ?pp (length pages))"
        using pc res by simp
      have n0: "0 < n" using False by simp
      have n1: "n < 65536" using hd by simp
      have "\<exists>n pages rest.
                0 < n \<and> n < 65536 \<and> length pages \<le> n
              \<and> (r = Inr True \<and> length pages = n \<and> rest = bytes_of (p_stdout s')
                  \<or> r = Inl ValueError \<and> length pages < n)
              \<and> (\<forall>p \<in> set pages. well_formed p)
              \<and> bytes_of (p_stdout s) = uint16 n @ concat (map wire_page pages) @ rest
              \<and> files s' = files s @ staged 1 pages
              \<and> progress s'
                  = progress s
                    @ page_reports n 1 (percentage s) (percentage_per_page ocr_lang n) (length pages)
              \<and> percentage s'
                  = last (percentage s # accumulate (percentage s) (percentage_per_page ocr_lang n) (length pages))"
        by (rule exI [of _ n], rule exI [of _ pages], rule exI [of _ rest])
           (intro conjI n0 n1 len c2 wfs c4 c5 c6 c7)
      with closed show ?thesis by blast
    qed
  qed
qed


text \<open>What happens after the loop.\<close>

lemma finish_cases:
  fixes d :: "'x deps"
  assumes "finish d ocr_lang s = (r, s')"
  shows "stdout_closed s' \<and> files s' = files s \<and> p_stdout s' = p_stdout s
         \<and> (\<exists>reports raised converted.
               pixels_to_pdf d ocr_lang (files s) = (reports, raised, converted)
             \<and> ((\<exists>x. raised = Some x \<and> r = Inl (Raised x)
                     \<and> progress s' = progress s
                         @ [(False, ''Converted document to pixels'', percentage s)] @ reports)
                \<or> (raised = None
                     \<and> (r = Inr True \<or> r = Inl FileNotFoundError)
                     \<and> progress s' = progress s
                         @ [(False, ''Converted document to pixels'', percentage s)] @ reports
                         @ [(False, ''Safe PDF created'', 100)])))"
proof -
  obtain reports raised converted where
    pdf: "pixels_to_pdf d ocr_lang (files s) = (reports, raised, converted)"
    by (cases "pixels_to_pdf d ocr_lang (files s)") auto
  obtain rt :: "'x error + nat list" and f' dt where
    err: "read_debug_text d (p_stderr s) (MAX_CONVERSION_LOG_CHARS d) = (rt, f', dt)"
    by (cases "read_debug_text d (p_stderr s) (MAX_CONVERSION_LOG_CHARS d)") auto
  have "stdout_closed s' \<and> files s' = files s \<and> p_stdout s' = p_stdout s
         \<and> ((\<exists>x. raised = Some x \<and> r = Inl (Raised x)
                     \<and> progress s' = progress s
                         @ [(False, ''Converted document to pixels'', percentage s)] @ reports)
                \<or> (raised = None
                     \<and> (r = Inr True \<or> r = Inl FileNotFoundError)
                     \<and> progress s' = progress s
                         @ [(False, ''Converted document to pixels'', percentage s)] @ reports
                         @ [(False, ''Safe PDF created'', 100)]))"
  proof (cases "dangerzone_dev d")
    case True
    with assms pdf err show ?thesis
      by (cases raised; cases converted) (auto simp: finish_def on_stderr_def Let_def)
  next
    case False
    with assms pdf show ?thesis
      by (cases raised; cases converted) (auto simp: finish_def Let_def)
  qed
  with pdf show ?thesis by blast
qed

lemma start_worker_stdout_closed:
  "start_worker d document s = (r, s') \<Longrightarrow> stdout_closed s' = stdout_closed s"
  by (auto simp: start_worker_def teleport_dz_module_def split: if_splits sum.splits)

text \<open>
  The session has closed \<^verbatim>\<open>p.stdout\<close> (line 164) exactly when the worker was started and
  the loop came to its end.
\<close>

lemma stdout_closed_convert:
  fixes d :: "'x deps"
  assumes "stdout_closed (snd (convert d w document ocr_lang))"
  obtains s1 s2 where
    "start_worker d document (initial w) = (Inr (), s1)"
    "doc_to_pixels d w document ocr_lang s1 = (Inr True, s2)"
    "convert d w document ocr_lang = finish d ocr_lang s2"
proof -
  obtain r1 s1 where sw: "start_worker d document (initial w) = (r1, s1)"
    by (cases "start_worker d document (initial w)") auto
  have c1: "\<not> stdout_closed s1"
    using start_worker_stdout_closed [OF sw] by (simp add: initial_def)
  obtain r2 s2 where dp: "doc_to_pixels d w document ocr_lang s1 = (r2, s2)"
    by (cases "doc_to_pixels d w document ocr_lang s1") auto
  have c2: "\<not> stdout_closed s2"
    using doc_to_pixels_cases [OF dp] c1 by simp
  have "r1 = Inr () \<and> r2 = Inr True"
  proof (cases r1)
    case (Inl e)
    with sw assms c1 show ?thesis by (simp add: convert_def)
  next
    case (Inr u)
    show ?thesis
    proof (cases r2)
      case (Inl e)
      with Inr sw dp assms c2 show ?thesis by (simp add: convert_def)
    next
      case b: (Inr b)
      with Inr sw dp assms c2 show ?thesis by (cases b) (simp_all add: convert_def)
    qed
  qed
  with sw dp have "start_worker d document (initial w) = (Inr (), s1)"
    "doc_to_pixels d w document ocr_lang s1 = (Inr True, s2)"
    "convert d w document ocr_lang = finish d ocr_lang s2"
    by (simp_all add: convert_def)
  then show ?thesis by (rule that)
qed

lemma length_wire_pages:
  "\<forall>p \<in> set pages. well_formed p \<Longrightarrow>
     length (concat (map wire_page pages))
       = 4 * length pages + (\<Sum>(width, height, pixels) \<leftarrow> pages. width * height * 3)"
  by (induction pages) (auto simp: uint16_def)

text \<open>
  Claim C1. Let the worker send the page count \<open>n \<ge> 1\<close> and then \<open>n\<close> well-formed page
  records, followed by anything, with any delays. If the session decodes to the end of
  the loop (it reaches line 164 and closes \<^verbatim>\<open>p.stdout\<close>), then it has consumed exactly the
  bytes of the count and of the records, that is
  \<open>sum (width * height * 3) + 2 + 4 * n\<close> bytes, what follows them is still on the pipe, and
  the files written are those of pages 1 to \<open>n\<close> in the order of the stream.
\<close>

theorem successful_decode_consumes_and_persists:
  fixes d :: "'x deps"
  assumes nonempty: "pages \<noteq> []"
    and count: "length pages < 65536"
    and wf: "\<forall>p \<in> set pages. well_formed p"
    and sent: "bytes_of (writes_stdout w) = wire pages @ trailing"
    and decoded: "stdout_closed (snd (convert d w document ocr_lang))"
  shows "bytes_of (p_stdout (snd (convert d w document ocr_lang))) = trailing
       \<and> length (bytes_of (writes_stdout w))
           - length (bytes_of (p_stdout (snd (convert d w document ocr_lang))))
         = (\<Sum>(width, height, pixels) \<leftarrow> pages. width * height * 3) + 2 + 4 * length pages
       \<and> files (snd (convert d w document ocr_lang)) = staged 1 pages"
proof -
  from decoded obtain s1 s2 where
    sw: "start_worker d document (initial w) = (Inr (), s1)"
    and dp: "doc_to_pixels d w document ocr_lang s1 = (Inr True, s2)"
    and fin: "convert d w document ocr_lang = finish d ocr_lang s2"
    by (rule stdout_closed_convert)
  have s1: "p_stdout s1 = writes_stdout w" "files s1 = []"
    using start_worker_frame [OF sw] by (simp_all add: initial_def)
  from doc_to_pixels_cases [OF dp] obtain n pages' rest where
    n: "n < 65536" and len: "length pages' = n"
    and rest: "rest = bytes_of (p_stdout s2)"
    and wf': "\<forall>p \<in> set pages'. well_formed p"
    and bs: "bytes_of (p_stdout s1) = uint16 n @ concat (map wire_page pages') @ rest"
    and fs: "files s2 = files s1 @ staged 1 pages'"
    by auto
  from bs sent s1 have eq:
    "uint16 n @ concat (map wire_page pages') @ rest
       = uint16 (length pages) @ concat (map wire_page pages) @ trailing"
    by (simp add: wire_def)
  have l2: "length (uint16 n) = length (uint16 (length pages))" by (simp add: uint16_def)
  from eq l2 have hd: "uint16 n = uint16 (length pages)"
    and tl: "concat (map wire_page pages') @ rest = concat (map wire_page pages) @ trailing"
    by simp_all
  have nn: "n = length pages" by (rule uint16_inject [OF n count hd])
  from wire_pages_unique [OF wf' wf _ tl] len nn
  have same: "pages' = pages" "rest = trailing" by simp_all
  obtain rf sf where f: "finish d ocr_lang s2 = (rf, sf)"
    by (cases "finish d ocr_lang s2") auto
  from finish_cases [OF f] have ff: "files sf = files s2" "p_stdout sf = p_stdout s2"
    by simp_all
  have a: "bytes_of (p_stdout (snd (convert d w document ocr_lang))) = trailing"
    using fin f ff rest same by simp
  have b: "files (snd (convert d w document ocr_lang)) = staged 1 pages"
    using fin f ff fs s1 same by simp
  have "length (bytes_of (writes_stdout w))
      = 2 + (4 * length pages + (\<Sum>(width, height, pixels) \<leftarrow> pages. width * height * 3))
        + length trailing"
    using sent length_wire_pages [OF wf] by (simp add: wire_def uint16_def)
  with a have c: "length (bytes_of (writes_stdout w))
           - length (bytes_of (p_stdout (snd (convert d w document ocr_lang))))
         = (\<Sum>(width, height, pixels) \<leftarrow> pages. width * height * 3) + 2 + 4 * length pages"
    by simp
  from a c b show ?thesis by blast
qed


theorem successful_decode_witness:
  "bytes_of (p_stdout (snd (convert scenario_deps
       \<lparr>writes_stdout = [Data 0, Wait, Data 1, Data 0, Data 2, Data 0, Data 2, Wait, Wait,
                         Data 1, Data 2, Data 3, Data 4, Data 5, Data 6, Data 7, Data 8,
                         Data 9, Data 10, Data 11, Data 12, Wait, Data 99],
        writes_stderr = [], returncode = 0\<rparr> [37, 80, 68, 70] None))) = [99]
   \<and> files (snd (convert scenario_deps
       \<lparr>writes_stdout = [Data 0, Wait, Data 1, Data 0, Data 2, Data 0, Data 2, Wait, Wait,
                         Data 1, Data 2, Data 3, Data 4, Data 5, Data 6, Data 7, Data 8,
                         Data 9, Data 10, Data 11, Data 12, Wait, Data 99],
        writes_stderr = [], returncode = 0\<rparr> [37, 80, 68, 70] None))
     = [(''/tmp/dangerzone/page-1.width'', Text ''2''),
        (''/tmp/dangerzone/page-1.height'', Text ''2''),
        (''/tmp/dangerzone/page-1.rgb'', Bytes [1, 2, 3, 4, 5, 6, 7, 8, 9, 10, 11, 12])]"
proof -
  let ?w = "\<lparr>writes_stdout = [Data 0, Wait, Data 1, Data 0, Data 2, Data 0, Data 2, Wait, Wait,
                         Data 1, Data 2, Data 3, Data 4, Data 5, Data 6, Data 7, Data 8,
                         Data 9, Data 10, Data 11, Data 12, Wait, Data 99],
        writes_stderr = [], returncode = 0\<rparr>"
  let ?pages = "[(2, 2, [1, 2, 3, 4, 5, 6, 7, 8, 9, 10, 11, 12])] :: page list"
  have h1: "?pages \<noteq> []" by simp
  have h2: "length ?pages < 65536" by simp
  have h3: "\<forall>p \<in> set ?pages. well_formed p" by simp
  have h4: "bytes_of (writes_stdout ?w) = wire ?pages @ [99]"
    by (simp add: wire_def uint16_def)
  have h5: "stdout_closed (snd (convert scenario_deps ?w [37, 80, 68, 70] None))"
    by (simp add: scenario_deps_def session_defs)
  show ?thesis
    using successful_decode_consumes_and_persists [OF h1 h2 h3 h4 h5]
    by (simp add: page_path_def str.simps)
qed

text \<open>
  Claim C5. However a session ends, the files under \<^verbatim>\<open>/tmp/dangerzone\<close> are the three files
  of each page of a list of pages, numbered from 1, with no file of a further page; each
  of these pages is well formed, so the buffer in \<^verbatim>\<open>page-i.rgb\<close> has exactly
  \<open>width * height * 3\<close> bytes for the width and height written beside it; and the
  buffers are the bytes of the worker's stream as they came, after the 2-byte page count.
\<close>

theorem persisted_pages_are_whole:
  fixes d :: "'x deps"
  shows "\<exists>pages. files (snd (convert d w document ocr_lang)) = staged 1 pages
           \<and> (\<forall>p \<in> set pages. well_formed p)
           \<and> (pages = [] \<or>
               (\<exists>n rest. length pages \<le> n
                  \<and> bytes_of (writes_stdout w) = uint16 n @ concat (map wire_page pages) @ rest))"
proof -
  obtain r1 s1 where sw: "start_worker d document (initial w) = (r1, s1)"
    by (cases "start_worker d document (initial w)") auto
  show ?thesis
  proof (cases r1)
    case (Inl e)
    have "files s1 = []"
      using sw Inl
      by (auto simp: start_worker_def teleport_dz_module_def initial_def
               split: if_splits sum.splits)
    then have "files (snd (convert d w document ocr_lang)) = []"
      using sw Inl by (simp add: convert_def)
    then show ?thesis by (intro exI [of _ "[]"]) simp
  next
    case (Inr u)
    with sw have sw': "start_worker d document (initial w) = (Inr (), s1)" by simp
    have s1: "p_stdout s1 = writes_stdout w" "files s1 = []"
      using start_worker_frame [OF sw'] by (simp_all add: initial_def)
    obtain r2 s2 where dp: "doc_to_pixels d w document ocr_lang s1 = (r2, s2)"
      by (cases "doc_to_pixels d w document ocr_lang s1") auto
    obtain rf sf where f: "finish d ocr_lang s2 = (rf, sf)"
      by (cases "finish d ocr_lang s2") auto
    have ff: "files sf = files s2" using finish_cases [OF f] by simp
    have final: "files (snd (convert d w document ocr_lang)) = files s2"
      using sw' dp f ff by (cases r2) (auto simp: convert_def split: bool.splits)
    from doc_to_pixels_cases [OF dp]
    have "files s2 = files s1
          \<or> (\<exists>n pages rest. length pages \<le> n \<and> (\<forall>p \<in> set pages. well_formed p)
                \<and> bytes_of (p_stdout s1) = uint16 n @ concat (map wire_page pages) @ rest
                \<and> files s2 = files s1 @ staged 1 pages)"
      by blast
    then show ?thesis
    proof
      assume "files s2 = files s1"
      with final s1 have "files (snd (convert d w document ocr_lang)) = []" by simp
      then show ?thesis by (intro exI [of _ "[]"]) simp
    next
      assume "\<exists>n pages rest. length pages \<le> n \<and> (\<forall>p \<in> set pages. well_formed p)
                \<and> bytes_of (p_stdout s1) = uint16 n @ concat (map wire_page pages) @ rest
                \<and> files s2 = files s1 @ staged 1 pages"
      then obtain n pages rest where "length pages \<le> n" "\<forall>p \<in> set pages. well_formed p"
        "bytes_of (p_stdout s1) = uint16 n @ concat (map wire_page pages) @ rest"
        "files s2 = files s1 @ staged 1 pages"
        by blast
      with final s1 have "files (snd (convert d w document ocr_lang)) = staged 1 pages
           \<and> (\<forall>p \<in> set pages. well_formed p)
           \<and> (pages = [] \<or>
               (\<exists>n rest. length pages \<le> n
                  \<and> bytes_of (writes_stdout w) = uint16 n @ concat (map wire_page pages) @ rest))"
        by auto
      then show ?thesis by (rule exI)
    qed
  qed
qed


theorem persisted_pages_witness:
  "fst (convert scenario_deps
         \<lparr>writes_stdout = [Data 0, Data 2, Data 0, Data 1, Data 0, Data 1, Data 7, Data 8,
                           Data 9, Data 0, Data 1, Data 0, Data 1, Data 5],
          writes_stderr = [], returncode = 0\<rparr> [37, 80, 68, 70] None) = Inl ValueError
   \<and> files (snd (convert scenario_deps
         \<lparr>writes_stdout = [Data 0, Data 2, Data 0, Data 1, Data 0, Data 1, Data 7, Data 8,
                           Data 9, Data 0, Data 1, Data 0, Data 1, Data 5],
          writes_stderr = [], returncode = 0\<rparr> [37, 80, 68, 70] None))
       = staged 1 [(1, 1, [7, 8, 9])]
   \<and> well_formed (1, 1, [7, 8, 9])"
  using persisted_pages_are_whole
          [of scenario_deps
              "\<lparr>writes_stdout = [Data 0, Data 2, Data 0, Data 1, Data 0, Data 1, Data 7, Data 8,
                                 Data 9, Data 0, Data 1, Data 0, Data 1, Data 5],
                writes_stderr = [], returncode = 0\<rparr>" "[37, 80, 68, 70]" None]
  by (simp add: scenario_deps_def session_defs)

lemma nonblocking_read_nothing: "nonblocking_read f 0 t = ([], f, 0)"
proof (cases f)
  case Nil
  then show ?thesis by simp
next
  case (Cons e f')
  then show ?thesis by (cases e) simp_all
qed

text \<open>
  Claim C10. When the two header reads of a page return a width and a height whose
  product is 0, the page is accepted: the pixel read asks for 0 bytes and takes nothing
  from the pipe, the three files are written with the dimensions as read and an empty
  \<^verbatim>\<open>.rgb\<close> file, the percentage advances and is reported, and the loop goes on with the
  next page.
\<close>

theorem zero_area_page_is_accepted:
  assumes w: "on_stdout (\<lambda>f. read_int f (remaining sw (clock s))) s
                = (Inr width :: 'x error + nat, s1)"
    and h: "on_stdout (\<lambda>f. read_int f (remaining sw (clock s1))) s1
                = (Inr height :: 'x error + nat, s2)"
    and zero: "width * height = 0"
  shows "convert_page sw n_pages per_page s page
           = (Inr () :: 'x error + unit,
              s2\<lparr>files := files s2 @
                     [(page_path page ''width'', Text (str width)),
                      (page_path page ''height'', Text (str height)),
                      (page_path page ''rgb'', Bytes [])],
                 percentage := float_add (percentage s2) per_page,
                 progress := progress s2 @
                     [(False, ''Converting page '' @ str page @ ''/'' @ str n_pages @ '' to pixels'',
                       float_add (percentage s2) per_page)]\<rparr>)
       \<and> convert_pages sw n_pages per_page (page # pages) s
           = (convert_pages sw n_pages per_page pages
               (s2\<lparr>files := files s2 @
                     [(page_path page ''width'', Text (str width)),
                      (page_path page ''height'', Text (str height)),
                      (page_path page ''rgb'', Bytes [])],
                 percentage := float_add (percentage s2) per_page,
                 progress := progress s2 @
                     [(False, ''Converting page '' @ str page @ ''/'' @ str n_pages @ '' to pixels'',
                       float_add (percentage s2) per_page)]\<rparr>) :: ('x error + unit) \<times> state)"
proof -
  have px: "on_stdout (\<lambda>f. read_bytes f (width * height * 3) (remaining sw (clock s2)) True) s2
              = (Inr [] :: 'x error + byte list, s2)"
  proof -
    have "width * height * 3 = 0" using zero by simp
    then show ?thesis
      by (simp only: on_stdout_def read_bytes_def nonblocking_read_nothing) simp
  qed
  have page: "convert_page sw n_pages per_page s page
           = (Inr () :: 'x error + unit,
              s2\<lparr>files := files s2 @
                     [(page_path page ''width'', Text (str width)),
                      (page_path page ''height'', Text (str height)),
                      (page_path page ''rgb'', Bytes [])],
                 percentage := float_add (percentage s2) per_page,
                 progress := progress s2 @
                     [(False, ''Converting page '' @ str page @ ''/'' @ str n_pages @ '' to pixels'',
                       float_add (percentage s2) per_page)]\<rparr>)"
    by (simp add: convert_page_def w h px Let_def)
  then show ?thesis by simp
qed


theorem zero_area_page_witness:
  "fst (convert_page \<lparr>sw_timeout = 10, sw_start = 0\<rparr> 1 100
          (initial \<lparr>writes_stdout = [Data 0, Data 0, Data 0, Data 5, Data 9],
                    writes_stderr = [], returncode = 0\<rparr>) 1) = (Inr () :: int error + unit)
   \<and> files (snd (convert_page \<lparr>sw_timeout = 10, sw_start = 0\<rparr> 1 100
          (initial \<lparr>writes_stdout = [Data 0, Data 0, Data 0, Data 5, Data 9],
                    writes_stderr = [], returncode = 0\<rparr>) 1
          :: (int error + unit) \<times> state))
       = [(''/tmp/dangerzone/page-1.width'', Text ''0''),
          (''/tmp/dangerzone/page-1.height'', Text ''5''),
          (''/tmp/dangerzone/page-1.rgb'', Bytes [])]
   \<and> p_stdout (snd (convert_page \<lparr>sw_timeout = 10, sw_start = 0\<rparr> 1 100
          (initial \<lparr>writes_stdout = [Data 0, Data 0, Data 0, Data 5, Data 9],
                    writes_stderr = [], returncode = 0\<rparr>) 1
          :: (int error + unit) \<times> state)) = [Data 9]
   \<and> percentages (progress (snd (convert_page \<lparr>sw_timeout = 10, sw_start = 0\<rparr> 1 100
          (initial \<lparr>writes_stdout = [Data 0, Data 0, Data 0, Data 5, Data 9],
                    writes_stderr = [], returncode = 0\<rparr>) 1
          :: (int error + unit) \<times> state))) = [100]"
proof -
  let ?w = "\<lparr>writes_stdout = [Data 0, Data 0, Data 0, Data 5, Data 9],
             writes_stderr = [], returncode = 0\<rparr>"
  let ?sw = "\<lparr>sw_timeout = 10, sw_start = 0\<rparr>"
  let ?s1 = "(initial ?w)\<lparr>p_stdout := [Data 0, Data 5, Data 9], clock := 0\<rparr>"
  let ?s2 = "?s1\<lparr>p_stdout := [Data 9], clock := 0\<rparr>"
  have h1: "on_stdout (\<lambda>f. read_int f (remaining ?sw (clock (initial ?w)))) (initial ?w)
              = (Inr 0 :: int error + nat, ?s1)"
    by (simp add: on_stdout_def read_int_def read_bytes_def from_bytes_def initial_def)
  have h2: "on_stdout (\<lambda>f. read_int f (remaining ?sw (clock ?s1))) ?s1
              = (Inr 5 :: int error + nat, ?s2)"
    by (simp add: on_stdout_def read_int_def read_bytes_def from_bytes_def initial_def)
  have h3: "(0 :: nat) * 5 = 0" by simp
  show ?thesis
    using zero_area_page_is_accepted [OF h1 h2 h3, of 1 100 1 "[]"]
    by (simp add: initial_def page_path_def str.simps float_add_0_100)
qed

subsection \<open>Progress\<close>

lemma length_accumulate [simp]: "length (accumulate p inc k) = k"
  by (induction k arbitrary: p) simp_all

lemma percentages_Nil: "percentages [] = []"
  by (simp add: percentages_def)

lemma percentages_Cons: "percentages ((e, m, p) # reports) = p # percentages reports"
  by (simp add: percentages_def)

lemma percentages_page_reports:
  "percentages (page_reports n page p inc k) = accumulate p inc k"
  by (induction k arbitrary: page p) (simp_all add: percentages_Nil percentages_Cons)

lemma length_staged: "length (staged i pages) = 3 * length pages"
proof (induction pages arbitrary: i)
  case Nil
  then show ?case by simp
next
  case (Cons p pages)
  obtain w h px where "p = (w, h, px)" by (cases p) auto
  with Cons show ?case by simp
qed

lemma percentage_per_page_nonneg: "0 \<le> percentage_per_page ocr_lang n"
  by (simp add: percentage_per_page_def float_div_def round_double_nonneg)

lemma percentage_per_page_error:
  assumes "0 < n" "n < 65536"
  shows "\<bar>percentage_per_page ocr_lang n - (if truthy ocr_lang then 50 else 100) / of_nat n\<bar>
           \<le> (if truthy ocr_lang then 50 else 100) / of_nat n / 2 ^ 53"
proof -
  have top: "50 \<le> (c :: rat) \<Longrightarrow> 2 powi (- 1022) \<le> \<bar>c / of_nat n\<bar>" for c
  proof -
    assume c: "50 \<le> c"
    have n: "(of_nat n :: rat) \<le> 65536" "(0 :: rat) < of_nat n" using assms by simp_all
    have "(2 :: rat) powi (- 1022) \<le> 2 powi (- 11)" by (rule power_int_increasing) simp_all
    also have "\<dots> \<le> 50 / 65536" by simp
    also have "\<dots> \<le> 50 / of_nat n" using n by (intro divide_left_mono) simp_all
    also have "\<dots> \<le> c / of_nat n" using c n by (simp add: divide_right_mono)
    finally show ?thesis using c n by simp
  qed
  show ?thesis
  proof (cases "truthy ocr_lang")
    case True
    have "\<bar>round_double (50 / of_nat n) - 50 / of_nat n\<bar> \<le> \<bar>50 / of_nat n\<bar> / 2 ^ 53"
      by (rule round_double_error) (rule top, simp)
    with True show ?thesis by (simp add: percentage_per_page_def float_div_def)
  next
    case False
    have "\<bar>round_double (100 / of_nat n) - 100 / of_nat n\<bar> \<le> \<bar>100 / of_nat n\<bar> / 2 ^ 53"
      by (rule round_double_error) (rule top, simp)
    with False show ?thesis by (simp add: percentage_per_page_def float_div_def)
  qed
qed

text \<open>
  The accumulated percentage is a double that is not negative, and adding an increment
  that is not negative never takes it down.
\<close>

lemma float_add_ge:
  assumes "0 \<le> p" "round_double p = p" "0 \<le> inc"
  shows "p \<le> float_add p inc"
proof -
  have "round_double p \<le> round_double (p + inc)"
    using assms(1,3) by (intro round_double_mono) simp_all
  with assms(2) show ?thesis by (simp add: float_add_def)
qed

lemma float_add_double:
  assumes "0 \<le> p" "0 \<le> inc"
  shows "0 \<le> float_add p inc" "round_double (float_add p inc) = float_add p inc"
  using assms by (simp_all add: float_add_def round_double_nonneg round_double_idem)

lemma accumulate_ge:
  "x \<in> set (accumulate p inc k) \<Longrightarrow> 0 \<le> p \<Longrightarrow> round_double p = p \<Longrightarrow> 0 \<le> inc
     \<Longrightarrow> p \<le> x"
proof (induction k arbitrary: p)
  case 0
  then show ?case by simp
next
  case (Suc k)
  have step: "p \<le> float_add p inc" using Suc.prems(2-4) by (rule float_add_ge)
  from Suc.prems(1) have "x = float_add p inc \<or> x \<in> set (accumulate (float_add p inc) inc k)"
    by simp
  then show ?case
  proof
    assume "x = float_add p inc"
    with step show ?thesis by simp
  next
    assume "x \<in> set (accumulate (float_add p inc) inc k)"
    then have "float_add p inc \<le> x"
      using float_add_double [OF Suc.prems(2) Suc.prems(4)] Suc.prems(4) by (intro Suc.IH)
    with step show ?thesis by simp
  qed
qed

lemma sorted_accumulate:
  "0 \<le> p \<Longrightarrow> round_double p = p \<Longrightarrow> 0 \<le> inc \<Longrightarrow> sorted (accumulate p inc k)"
proof (induction k arbitrary: p)
  case 0
  then show ?case by simp
next
  case (Suc k)
  have d: "0 \<le> float_add p inc" "round_double (float_add p inc) = float_add p inc"
    using float_add_double [OF Suc.prems(1) Suc.prems(3)] by simp_all
  have "sorted (accumulate (float_add p inc) inc k)" using d Suc.prems(3) by (intro Suc.IH)
  moreover have "\<forall>x \<in> set (accumulate (float_add p inc) inc k). float_add p inc \<le> x"
    using d Suc.prems(3) by (auto dest: accumulate_ge)
  ultimately show ?case by simp
qed

lemma sorted_page_percentages:
  "sorted (accumulate 0 (percentage_per_page ocr_lang n) k)"
  by (rule sorted_accumulate) (simp_all add: round_double_0 percentage_per_page_nonneg)

lemma sorted_then_last:
  fixes xs :: "rat list"
  assumes "sorted xs" "xs \<noteq> []"
  shows "sorted (xs @ [last xs] @ ys) \<longleftrightarrow> sorted (last xs # ys)"
proof -
  have le: "\<forall>x \<in> set xs. x \<le> last xs"
  proof
    fix x assume "x \<in> set xs"
    from assms(2) have "xs = butlast xs @ [last xs]" by simp
    then have "sorted (butlast xs @ [last xs])" using assms(1) by simp
    then have "\<forall>y \<in> set (butlast xs). y \<le> last xs" by (simp add: sorted_append)
    moreover have "x \<in> set (butlast xs) \<or> x = last xs"
      using \<open>x \<in> set xs\<close> \<open>xs = butlast xs @ [last xs]\<close>
      by (metis Un_iff empty_iff empty_set set_ConsD set_append)
    ultimately show "x \<le> last xs" by auto
  qed
  show ?thesis
  proof
    assume "sorted (xs @ [last xs] @ ys)"
    then show "sorted (last xs # ys)" by (simp add: sorted_append)
  next
    assume s: "sorted (last xs # ys)"
    then have "\<forall>y \<in> set ys. last xs \<le> y" by simp
    with le have "\<forall>x \<in> set xs. \<forall>y \<in> set ys. x \<le> y" by fastforce
    with s le assms(1) show "sorted (xs @ [last xs] @ ys)" by (simp add: sorted_append)
  qed
qed

lemma success_closes_stdout:
  fixes d :: "'x deps"
  assumes "fst (convert d w document ocr_lang) = Inr True"
  shows "stdout_closed (snd (convert d w document ocr_lang))"
proof -
  obtain r1 s1 where sw: "start_worker d document (initial w) = (r1, s1)"
    by (cases "start_worker d document (initial w)") auto
  obtain r2 s2 where dp: "doc_to_pixels d w document ocr_lang s1 = (r2, s2)"
    by (cases "doc_to_pixels d w document ocr_lang s1") auto
  obtain rf sf where f: "finish d ocr_lang s2 = (rf, sf)"
    by (cases "finish d ocr_lang s2") auto
  have "convert d w document ocr_lang = (rf, sf)"
    using assms sw dp f
    by (auto simp: convert_def split: sum.splits bool.splits)
  with finish_cases [OF f] show ?thesis by simp
qed

text \<open>
  The reports of a session, whatever the worker sends. Before line 164 there is one
  report per decoded page; a session that gets there has decoded all the pages.
\<close>

lemma reports_before_the_end:
  fixes d :: "'x deps"
  assumes "\<not> stdout_closed (snd (convert d w document ocr_lang))"
  shows "\<exists>n j. progress (snd (convert d w document ocr_lang))
                 = page_reports n 1 0 (percentage_per_page ocr_lang n) j
             \<and> length (files (snd (convert d w document ocr_lang))) = 3 * j
             \<and> (j = 0 \<or> j < n \<and> n < 65536
                          \<and> (\<exists>rest. bytes_of (writes_stdout w) = uint16 n @ rest))"
proof -
  let ?final = "snd (convert d w document ocr_lang)"
  have none: "progress ?final = [] \<Longrightarrow> files ?final = [] \<Longrightarrow> ?thesis"
  proof -
    assume "progress ?final = []" "files ?final = []"
    then have "progress ?final = page_reports 0 1 0 (percentage_per_page ocr_lang 0) 0
        \<and> length (files ?final) = 3 * 0
        \<and> ((0 :: nat) = 0 \<or> (0 :: nat) < 0 \<and> (0 :: nat) < 65536
               \<and> (\<exists>rest. bytes_of (writes_stdout w) = uint16 0 @ rest))"
      by simp
    then show ?thesis by blast
  qed
  obtain r1 s1 where sw: "start_worker d document (initial w) = (r1, s1)"
    by (cases "start_worker d document (initial w)") auto
  show ?thesis
  proof (cases r1)
    case (Inl e)
    have "files s1 = [] \<and> progress s1 = []"
      using sw Inl
      by (auto simp: start_worker_def teleport_dz_module_def initial_def
               split: if_splits sum.splits)
    with sw Inl show ?thesis by (intro none) (simp_all add: convert_def)
  next
    case (Inr u)
    with sw have sw': "start_worker d document (initial w) = (Inr (), s1)" by simp
    have s1: "p_stdout s1 = writes_stdout w" "files s1 = []" "progress s1 = []"
      "percentage s1 = 0"
      using start_worker_frame [OF sw'] by (simp_all add: initial_def)
    obtain r2 s2 where dp: "doc_to_pixels d w document ocr_lang s1 = (r2, s2)"
      by (cases "doc_to_pixels d w document ocr_lang s1") auto
    have nt: "r2 \<noteq> Inr True"
    proof
      assume t: "r2 = Inr True"
      obtain rf sf where f: "finish d ocr_lang s2 = (rf, sf)"
        by (cases "finish d ocr_lang s2") auto
      have "?final = sf" using sw' dp t f by (simp add: convert_def)
      with finish_cases [OF f] assms show False by simp
    qed
    then have fin: "?final = s2"
      using sw' dp by (cases r2) (auto simp: convert_def split: bool.splits)
    from doc_to_pixels_cases [OF dp] nt
    have "(files s2 = files s1 \<and> progress s2 = progress s1)
          \<or> (\<exists>n pages rest.
                length pages < n \<and> n < 65536
              \<and> bytes_of (p_stdout s1) = uint16 n @ concat (map wire_page pages) @ rest
              \<and> files s2 = files s1 @ staged 1 pages
              \<and> progress s2
                  = progress s1
                    @ page_reports n 1 (percentage s1) (percentage_per_page ocr_lang n)
                        (length pages))"
      by blast
    then show ?thesis
    proof
      assume "files s2 = files s1 \<and> progress s2 = progress s1"
      with fin s1 show ?thesis by (intro none) simp_all
    next
      assume "\<exists>n pages rest.
                length pages < n \<and> n < 65536
              \<and> bytes_of (p_stdout s1) = uint16 n @ concat (map wire_page pages) @ rest
              \<and> files s2 = files s1 @ staged 1 pages
              \<and> progress s2
                  = progress s1
                    @ page_reports n 1 (percentage s1) (percentage_per_page ocr_lang n)
                        (length pages)"
      then obtain n pages rest where len: "length pages < n" and n16: "n < 65536"
        and bs: "bytes_of (p_stdout s1) = uint16 n @ concat (map wire_page pages) @ rest"
        and fs: "files s2 = files s1 @ staged 1 pages"
        and pr: "progress s2
                  = progress s1
                    @ page_reports n 1 (percentage s1) (percentage_per_page ocr_lang n)
                        (length pages)"
        by blast
      have c1: "progress ?final = page_reports n 1 0 (percentage_per_page ocr_lang n) (length pages)"
        using fin pr s1 by simp
      have c2: "length (files ?final) = 3 * length pages"
        using fin fs s1 by (simp add: length_staged)
      have c3: "length pages = 0
            \<or> length pages < n \<and> n < 65536
                \<and> (\<exists>rest. bytes_of (writes_stdout w) = uint16 n @ rest)"
        using len n16 bs s1 by auto
      show ?thesis
        by (rule exI [of _ n], rule exI [of _ "length pages"]) (intro conjI c1 c2 c3)
    qed
  qed
qed

lemma reports_at_the_end:
  fixes d :: "'x deps"
  assumes "stdout_closed (snd (convert d w document ocr_lang))"
  shows "\<exists>n rest reports raised converted.
           0 < n \<and> n < 65536 \<and> bytes_of (writes_stdout w) = uint16 n @ rest
         \<and> length (files (snd (convert d w document ocr_lang))) = 3 * n
         \<and> pixels_to_pdf d ocr_lang (files (snd (convert d w document ocr_lang)))
             = (reports, raised, converted)
         \<and> (fst (convert d w document ocr_lang) = Inr True \<longrightarrow> raised = None)
         \<and> progress (snd (convert d w document ocr_lang))
             = page_reports n 1 0 (percentage_per_page ocr_lang n) n
               @ [(False, ''Converted document to pixels'',
                   last (accumulate 0 (percentage_per_page ocr_lang n) n))]
               @ reports
               @ (if raised = None then [(False, ''Safe PDF created'', 100)] else [])"
proof -
  let ?final = "snd (convert d w document ocr_lang)"
  from assms obtain s1 s2 where
    sw: "start_worker d document (initial w) = (Inr (), s1)" and
    dp: "doc_to_pixels d w document ocr_lang s1 = (Inr True, s2)" and
    cv: "convert d w document ocr_lang = finish d ocr_lang s2"
    by (rule stdout_closed_convert)
  have s1: "p_stdout s1 = writes_stdout w" "files s1 = []" "progress s1 = []"
      "percentage s1 = 0"
    using start_worker_frame [OF sw] by (simp_all add: initial_def)
  have ne: "(Inr True :: 'x error + bool) \<noteq> Inl e" "(Inr True :: 'x error + bool) \<noteq> Inr False"
    for e by simp_all
  from doc_to_pixels_cases [OF dp] ne
  have "\<exists>n pages trailing. 0 < n \<and> n < 65536 \<and> length pages = n
      \<and> bytes_of (p_stdout s1) = uint16 n @ concat (map wire_page pages) @ trailing
      \<and> files s2 = files s1 @ staged 1 pages
      \<and> progress s2
           = progress s1
             @ page_reports n 1 (percentage s1) (percentage_per_page ocr_lang n) (length pages)
      \<and> percentage s2
           = last (percentage s1
                   # accumulate (percentage s1) (percentage_per_page ocr_lang n) (length pages))"
    by blast
  then obtain n pages trailing where n: "0 < n" and n16: "n < 65536"
    and len: "length pages = n"
    and bs: "bytes_of (p_stdout s1) = uint16 n @ concat (map wire_page pages) @ trailing"
    and fs: "files s2 = files s1 @ staged 1 pages"
    and pr: "progress s2
           = progress s1
             @ page_reports n 1 (percentage s1) (percentage_per_page ocr_lang n) (length pages)"
    and pc: "percentage s2
           = last (percentage s1
                   # accumulate (percentage s1) (percentage_per_page ocr_lang n) (length pages))"
    by blast
  let ?inc = "percentage_per_page ocr_lang n"
  have own: "accumulate 0 ?inc n \<noteq> []" using n by (cases n) simp_all
  have pr2: "progress s2 = page_reports n 1 0 ?inc n" using pr s1 len by simp
  have pc2: "percentage s2 = last (accumulate 0 ?inc n)" using pc s1 len own by simp
  obtain rf sf where f: "finish d ocr_lang s2 = (rf, sf)"
    by (cases "finish d ocr_lang s2") auto
  have fin: "?final = sf" "fst (convert d w document ocr_lang) = rf" using cv f by simp_all
  from finish_cases [OF f]
  obtain reports raised converted where
    fs': "files sf = files s2" and
    pp: "pixels_to_pdf d ocr_lang (files s2) = (reports, raised, converted)" and
    pf: "(\<exists>x. raised = Some x \<and> rf = Inl (Raised x)
             \<and> progress sf = progress s2 @ [(False, ''Converted document to pixels'', percentage s2)]
                                @ reports)
         \<or> (raised = None
             \<and> progress sf = progress s2 @ [(False, ''Converted document to pixels'', percentage s2)]
                                @ reports @ [(False, ''Safe PDF created'', 100)])"
    by blast
  have c1: "bytes_of (writes_stdout w) = uint16 n @ concat (map wire_page pages) @ trailing"
    using bs s1 by simp
  have c2: "length (files ?final) = 3 * n"
    using fin fs' fs s1 len by (simp add: length_staged)
  have c3: "pixels_to_pdf d ocr_lang (files ?final) = (reports, raised, converted)"
    using fin fs' pp by simp
  have c4: "fst (convert d w document ocr_lang) = Inr True \<longrightarrow> raised = None"
    using pf fin by auto
  have c5: "progress ?final
             = page_reports n 1 0 ?inc n
               @ [(False, ''Converted document to pixels'', last (accumulate 0 ?inc n))]
               @ reports
               @ (if raised = None then [(False, ''Safe PDF created'', 100)] else [])"
    using pf fin pr2 pc2 by auto
  show ?thesis
    by (rule exI [of _ n], rule exI [of _ "concat (map wire_page pages) @ trailing"],
        rule exI [of _ reports], rule exI [of _ raised], rule exI [of _ converted])
       (intro conjI n n16 c1 c2 c3 c4 c5)
qed

text \<open>
  Claim C7. When the worker announces \<open>n \<ge> 1\<close> pages, the increment per page is the
  double quotient \<^verbatim>\<open>50.0 / n\<close> if the caller gave an OCR language (a non-empty
  \<^verbatim>\<open>ocr_lang\<close>) and \<^verbatim>\<open>100.0 / n\<close> otherwise: the double nearest to \<open>50 / n\<close> or
  \<open>100 / n\<close>, within \<open>2 powi -53\<close> of it in proportion, and equal to it only when that
  number is a double. Each decoded page takes the percentage \<open>p\<close> to the double sum
  \<^verbatim>\<open>p + increment\<close>, the double nearest to the exact sum: if \<open>j\<close> pages were decoded (three
  files each), the first \<open>j\<close> reports of the session carry the percentages accumulated so
  from 0, and \<open>j = n\<close> when the whole stream was decoded.
\<close>

theorem per_page_increment:
  fixes d :: "'x deps"
  assumes pos: "0 < n" and small: "n < 65536"
    and announced: "bytes_of (writes_stdout w) = uint16 n @ rest0"
  shows "percentage_per_page ocr_lang n
           = (if truthy ocr_lang then float_div 50 (of_nat n) else float_div 100 (of_nat n))
       \<and> \<bar>percentage_per_page ocr_lang n - (if truthy ocr_lang then 50 else 100) / of_nat n\<bar>
           \<le> (if truthy ocr_lang then 50 else 100) / of_nat n / 2 ^ 53
       \<and> (\<exists>j \<le> n.
             length (files (snd (convert d w document ocr_lang))) = 3 * j
           \<and> take j (percentages (progress (snd (convert d w document ocr_lang))))
               = accumulate 0 (percentage_per_page ocr_lang n) j
           \<and> (stdout_closed (snd (convert d w document ocr_lang)) \<longrightarrow> j = n))"
proof -
  let ?final = "snd (convert d w document ocr_lang)"
  let ?inc = "percentage_per_page ocr_lang n"
  have same: "m = n" if "m < 65536" "bytes_of (writes_stdout w) = uint16 m @ trailing"
    for m trailing
  proof -
    have "length (uint16 m) = length (uint16 n)" by (simp add: uint16_def)
    with that(2) announced have "uint16 m = uint16 n" by simp
    then show ?thesis by (rule uint16_inject [OF that(1) small])
  qed
  have c1: "?inc = (if truthy ocr_lang then float_div 50 (of_nat n) else float_div 100 (of_nat n))"
    by (simp add: percentage_per_page_def)
  have c2: "\<bar>?inc - (if truthy ocr_lang then 50 else 100) / of_nat n\<bar>
              \<le> (if truthy ocr_lang then 50 else 100) / of_nat n / 2 ^ 53"
    using pos small by (rule percentage_per_page_error)
  have c3: "\<exists>j \<le> n. length (files ?final) = 3 * j
           \<and> take j (percentages (progress ?final)) = accumulate 0 ?inc j
           \<and> (stdout_closed ?final \<longrightarrow> j = n)"
  proof (cases "stdout_closed ?final")
    case True
    from reports_at_the_end [OF True] obtain m trailing more where
      m: "m < 65536" "bytes_of (writes_stdout w) = uint16 m @ trailing"
      and fs: "length (files ?final) = 3 * m"
      and pr: "progress ?final = page_reports m 1 0 (percentage_per_page ocr_lang m) m @ more"
      by blast
    have mn: "m = n" using m by (rule same)
    have "take n (percentages (progress ?final)) = accumulate 0 ?inc n"
      using pr mn by (simp add: percentages_page_reports)
    with fs mn have "n \<le> n \<and> length (files ?final) = 3 * n
           \<and> take n (percentages (progress ?final)) = accumulate 0 ?inc n
           \<and> (stdout_closed ?final \<longrightarrow> n = n)"
      by simp
    then show ?thesis by (rule exI [of _ n])
  next
    case False
    from reports_before_the_end [OF False] obtain m j where
      pr: "progress ?final = page_reports m 1 0 (percentage_per_page ocr_lang m) j"
      and fs: "length (files ?final) = 3 * j"
      and j: "j = 0 \<or> j < m \<and> m < 65536
                \<and> (\<exists>trailing. bytes_of (writes_stdout w) = uint16 m @ trailing)"
      by blast
    show ?thesis
    proof (cases "j = 0")
      case True
      with fs False have "0 \<le> n \<and> length (files ?final) = 3 * 0
           \<and> take 0 (percentages (progress ?final)) = accumulate 0 ?inc 0
           \<and> (stdout_closed ?final \<longrightarrow> 0 = n)"
        by simp
      then show ?thesis by (rule exI [of _ 0])
    next
      case nz: False
      with j obtain trailing where jm: "j < m" and m: "m < 65536"
        "bytes_of (writes_stdout w) = uint16 m @ trailing"
        by blast
      have mn: "m = n" using m by (rule same)
      have "take j (percentages (progress ?final)) = accumulate 0 ?inc j"
        using pr mn by (simp add: percentages_page_reports)
      with fs False jm mn have "j \<le> n \<and> length (files ?final) = 3 * j
           \<and> take j (percentages (progress ?final)) = accumulate 0 ?inc j
           \<and> (stdout_closed ?final \<longrightarrow> j = n)"
        by simp
      then show ?thesis by (rule exI [of _ j])
    qed
  qed
  from c1 c2 c3 show ?thesis by (intro conjI)
qed

theorem per_page_increment_witness:
  "take 3 (percentages (progress (snd (convert scenario_deps
       \<lparr>writes_stdout = [Data 0, Data 3, Data 0, Data 1, Data 0, Data 1, Data 7, Data 8,
                         Data 9, Data 0, Data 1, Data 0, Data 1, Data 4, Data 5, Data 6,
                         Data 0, Data 1, Data 0, Data 1, Data 1, Data 2, Data 3],
        writes_stderr = [], returncode = 0\<rparr> [37, 80, 68, 70] None))))
     = [4691249611844267 / 140737488355328, 4691249611844267 / 70368744177664, 100]"
proof -
  let ?w = "\<lparr>writes_stdout = [Data 0, Data 3, Data 0, Data 1, Data 0, Data 1, Data 7, Data 8,
                         Data 9, Data 0, Data 1, Data 0, Data 1, Data 4, Data 5, Data 6,
                         Data 0, Data 1, Data 0, Data 1, Data 1, Data 2, Data 3],
        writes_stderr = [], returncode = 0\<rparr>"
  let ?final = "snd (convert scenario_deps ?w [37, 80, 68, 70] None)"
  have h1: "0 < (3 :: nat)" by simp
  have h2: "(3 :: nat) < 65536" by simp
  have h3: "bytes_of (writes_stdout ?w)
              = uint16 3 @ [0, 1, 0, 1, 7, 8, 9, 0, 1, 0, 1, 4, 5, 6, 0, 1, 0, 1, 1, 2, 3]"
    by (simp add: uint16_def)
  have h4: "stdout_closed ?final"
    by (simp add: scenario_deps_def session_defs)
  from per_page_increment [OF h1 h2 h3, where d = scenario_deps and document = "[37, 80, 68, 70]"
                             and ocr_lang = None]
  obtain j where "take j (percentages (progress ?final))
             = accumulate 0 (percentage_per_page None 3) j"
    and "stdout_closed ?final \<longrightarrow> j = 3"
    by blast
  with h4 have "take 3 (percentages (progress ?final))
             = accumulate 0 (percentage_per_page None 3) 3"
    by simp
  then show ?thesis
    by (simp add: numeral_3_eq_3 percentage_per_page_def float_div_100_3
                  float_add_third_1 float_add_third_2 float_add_third_3)
qed

text \<open>
  Three pages with an OCR language: the increment is 16.666666666666668, which is not
  \<open>50 / 3\<close>, the reports carry 16.666666666666668, 33.333333333333336 and 50, and the third
  page advances the percentage by less than the increment.
\<close>

theorem increment_is_rounded:
  "percentage_per_page (Some ''eng'') 3 \<noteq> 50 / 3
   \<and> take 3 (percentages (progress (snd (convert scenario_deps
       \<lparr>writes_stdout = [Data 0, Data 3, Data 0, Data 1, Data 0, Data 1, Data 7, Data 8,
                         Data 9, Data 0, Data 1, Data 0, Data 1, Data 4, Data 5, Data 6,
                         Data 0, Data 1, Data 0, Data 1, Data 1, Data 2, Data 3],
        writes_stderr = [], returncode = 0\<rparr> [37, 80, 68, 70] (Some ''eng'')))))
       = [4691249611844267 / 281474976710656, 4691249611844267 / 140737488355328, 50]
   \<and> 50 - 4691249611844267 / 140737488355328 \<noteq> percentage_per_page (Some ''eng'') 3"
  by (simp add: scenario_deps_def session_defs percentages_def float_div_50_3
                float_add_sixth_1 float_add_sixth_2 float_add_sixth_3)

text \<open>
  Claim C6. In every session the reports made before the PDF stage never decrease: they
  are one report "Converting page i/n to pixels" per decoded page, each with the double
  sum of the percentage before and the increment, and, when all the pages are decoded,
  "Converted document to pixels" with the percentage of the last page again. A session
  that stops there has no other report. Otherwise the reports of the PDF stage follow as
  that stage makes them and, unless it raises, "Safe PDF created" with exactly 100,
  which is the last report of every session that succeeds. The whole sequence never
  decreases if and only if the percentage that the pages reached, the percentages of the
  PDF stage and the final 100 never decrease in this order.
\<close>

theorem progress_of_a_session:
  fixes d :: "'x deps"
  shows "(\<not> stdout_closed (snd (convert d w document ocr_lang)) \<longrightarrow>
            (\<exists>n j. progress (snd (convert d w document ocr_lang))
                     = page_reports n 1 0 (percentage_per_page ocr_lang n) j)
          \<and> sorted (percentages (progress (snd (convert d w document ocr_lang)))))
       \<and> (stdout_closed (snd (convert d w document ocr_lang)) \<longrightarrow>
            (\<exists>n reports raised converted.
               let inc = percentage_per_page ocr_lang n;
                   reached = last (accumulate 0 inc n);
                   own = page_reports n 1 0 inc n
                         @ [(False, ''Converted document to pixels'', reached)];
                   others = reports
                         @ (if raised = None then [(False, ''Safe PDF created'', 100)] else [])
               in 0 < n
                \<and> pixels_to_pdf d ocr_lang (files (snd (convert d w document ocr_lang)))
                    = (reports, raised, converted)
                \<and> progress (snd (convert d w document ocr_lang)) = own @ others
                \<and> sorted (percentages own)
                \<and> (sorted (percentages (progress (snd (convert d w document ocr_lang))))
                     \<longleftrightarrow> sorted (reached # percentages others))))
       \<and> (fst (convert d w document ocr_lang) = Inr True \<longrightarrow>
            stdout_closed (snd (convert d w document ocr_lang))
          \<and> last (progress (snd (convert d w document ocr_lang)))
              = (False, ''Safe PDF created'', 100))"
proof -
  let ?final = "snd (convert d w document ocr_lang)"
  have a: "(\<exists>n j. progress ?final = page_reports n 1 0 (percentage_per_page ocr_lang n) j)
          \<and> sorted (percentages (progress ?final))"
    if "\<not> stdout_closed ?final"
  proof -
    from reports_before_the_end [OF that] obtain n j where
      pr: "progress ?final = page_reports n 1 0 (percentage_per_page ocr_lang n) j"
      by blast
    have "sorted (percentages (progress ?final))"
      unfolding pr percentages_page_reports by (rule sorted_page_percentages)
    with pr show ?thesis by blast
  qed
  have b: "\<exists>n reports raised converted.
               let inc = percentage_per_page ocr_lang n;
                   reached = last (accumulate 0 inc n);
                   own = page_reports n 1 0 inc n
                         @ [(False, ''Converted document to pixels'', reached)];
                   others = reports
                         @ (if raised = None then [(False, ''Safe PDF created'', 100)] else [])
               in 0 < n
                \<and> pixels_to_pdf d ocr_lang (files ?final) = (reports, raised, converted)
                \<and> progress ?final = own @ others
                \<and> sorted (percentages own)
                \<and> (sorted (percentages (progress ?final))
                     \<longleftrightarrow> sorted (reached # percentages others))"
    if "stdout_closed ?final"
  proof -
    from reports_at_the_end [OF that] obtain n reports raised converted where
      n: "0 < n"
      and pp: "pixels_to_pdf d ocr_lang (files ?final) = (reports, raised, converted)"
      and pr: "progress ?final
                 = page_reports n 1 0 (percentage_per_page ocr_lang n) n
                   @ [(False, ''Converted document to pixels'',
                       last (accumulate 0 (percentage_per_page ocr_lang n) n))]
                   @ reports
                   @ (if raised = None then [(False, ''Safe PDF created'', 100)] else [])"
      by blast
    let ?inc = "percentage_per_page ocr_lang n"
    let ?acc = "accumulate 0 ?inc n"
    let ?own = "page_reports n 1 0 ?inc n @ [(False, ''Converted document to pixels'', last ?acc)]"
    let ?others = "reports @ (if raised = None then [(False, ''Safe PDF created'', 100)] else [])"
    have so: "sorted ?acc" by (rule sorted_page_percentages)
    have ne: "?acc \<noteq> []" using n by (cases n) simp_all
    have po: "percentages ?own = ?acc @ [last ?acc]"
      by (simp add: percentages_page_reports)
    have c3: "progress ?final = ?own @ ?others" using pr by simp
    have c4: "sorted (percentages ?own)"
      unfolding po using sorted_then_last [OF so ne, of "[]"] by simp
    have "percentages (progress ?final) = percentages ?own @ percentages ?others"
      unfolding c3 by (rule percentages_append)
    also have "\<dots> = (?acc @ [last ?acc]) @ percentages ?others" by (simp only: po)
    finally have "percentages (progress ?final) = ?acc @ [last ?acc] @ percentages ?others"
      by (simp only: append_assoc)
    then have c5: "sorted (percentages (progress ?final))
                     \<longleftrightarrow> sorted (last ?acc # percentages ?others)"
      by (simp only: sorted_then_last [OF so ne])
    from n pp c3 c4 c5 show ?thesis
      unfolding Let_def by blast
  qed
  have c: "stdout_closed ?final \<and> last (progress ?final) = (False, ''Safe PDF created'', 100)"
    if "fst (convert d w document ocr_lang) = Inr True"
  proof -
    have closed: "stdout_closed ?final" using that by (rule success_closes_stdout)
    from reports_at_the_end [OF closed] that obtain xs where
      "progress ?final = xs @ [(False, ''Safe PDF created'', 100)]"
      by auto
    with closed show ?thesis by simp
  qed
  from a b c show ?thesis by blast
qed

theorem progress_of_a_session_witness:
  "fst (convert (pdf_stage_reporting [75])
          \<lparr>writes_stdout = [Data 0, Data 3, Data 0, Data 1, Data 0, Data 1, Data 7, Data 8,
                         Data 9, Data 0, Data 1, Data 0, Data 1, Data 4, Data 5, Data 6,
                         Data 0, Data 1, Data 0, Data 1, Data 1, Data 2, Data 3],
        writes_stderr = [], returncode = 0\<rparr> [37, 80, 68, 70] (Some ''eng'')) = Inr True
   \<and> last (progress (snd (convert (pdf_stage_reporting [75])
          \<lparr>writes_stdout = [Data 0, Data 3, Data 0, Data 1, Data 0, Data 1, Data 7, Data 8,
                         Data 9, Data 0, Data 1, Data 0, Data 1, Data 4, Data 5, Data 6,
                         Data 0, Data 1, Data 0, Data 1, Data 1, Data 2, Data 3],
        writes_stderr = [], returncode = 0\<rparr> [37, 80, 68, 70] (Some ''eng''))))
       = (False, ''Safe PDF created'', 100)
   \<and> \<not> stdout_closed (snd (convert scenario_deps
          \<lparr>writes_stdout = [Data 0, Data 3, Data 0, Data 1, Data 0, Data 1, Data 7, Data 8,
                         Data 9, Data 0, Data 1, Data 0],
        writes_stderr = [], returncode = 0\<rparr> [37, 80, 68, 70] None))
   \<and> sorted (percentages (progress (snd (convert scenario_deps
          \<lparr>writes_stdout = [Data 0, Data 3, Data 0, Data 1, Data 0, Data 1, Data 7, Data 8,
                         Data 9, Data 0, Data 1, Data 0],
        writes_stderr = [], returncode = 0\<rparr> [37, 80, 68, 70] None))))"
proof -
  let ?w = "\<lparr>writes_stdout = [Data 0, Data 3, Data 0, Data 1, Data 0, Data 1, Data 7, Data 8,
                         Data 9, Data 0, Data 1, Data 0, Data 1, Data 4, Data 5, Data 6,
                         Data 0, Data 1, Data 0, Data 1, Data 1, Data 2, Data 3],
        writes_stderr = [], returncode = 0\<rparr>"
  let ?short = "\<lparr>writes_stdout = [Data 0, Data 3, Data 0, Data 1, Data 0, Data 1, Data 7, Data 8,
                         Data 9, Data 0, Data 1, Data 0],
        writes_stderr = [], returncode = 0\<rparr>"
  have h1: "fst (convert (pdf_stage_reporting [75]) ?w [37, 80, 68, 70] (Some ''eng'')) = Inr True"
    by (simp add: pdf_stage_reporting_def scenario_deps_def session_defs)
  have h2: "\<not> stdout_closed (snd (convert scenario_deps ?short [37, 80, 68, 70] None))"
    by (simp add: scenario_deps_def session_defs)
  from progress_of_a_session [of "pdf_stage_reporting [75]" ?w "[37, 80, 68, 70]" "Some ''eng''"] h1
  have 1: "last (progress (snd (convert (pdf_stage_reporting [75]) ?w [37, 80, 68, 70] (Some ''eng''))))
             = (False, ''Safe PDF created'', 100)"
    by blast
  from progress_of_a_session [of scenario_deps ?short "[37, 80, 68, 70]" None] h2
  have 2: "sorted (percentages (progress (snd (convert scenario_deps ?short [37, 80, 68, 70] None))))"
    by blast
  from h1 1 h2 2 show ?thesis by (intro conjI)
qed

text \<open>
  A session that succeeds and whose reports decrease: six pages, no OCR language, a PDF
  stage that reports nothing. The sixth page takes the percentage to
  100.00000000000001, "Converted document to pixels" repeats it, and "Safe PDF created"
  reports 100.
\<close>

theorem progress_can_decrease:
  "fst (convert scenario_deps
          \<lparr>writes_stdout = [Data 0, Data 6,
                         Data 0, Data 1, Data 0, Data 1, Data 1, Data 2, Data 3,
                         Data 0, Data 1, Data 0, Data 1, Data 1, Data 2, Data 3,
                         Data 0, Data 1, Data 0, Data 1, Data 1, Data 2, Data 3,
                         Data 0, Data 1, Data 0, Data 1, Data 1, Data 2, Data 3,
                         Data 0, Data 1, Data 0, Data 1, Data 1, Data 2, Data 3,
                         Data 0, Data 1, Data 0, Data 1, Data 1, Data 2, Data 3],
        writes_stderr = [], returncode = 0\<rparr> [37, 80, 68, 70] None) = Inr True
   \<and> percentages (progress (snd (convert scenario_deps
          \<lparr>writes_stdout = [Data 0, Data 6,
                         Data 0, Data 1, Data 0, Data 1, Data 1, Data 2, Data 3,
                         Data 0, Data 1, Data 0, Data 1, Data 1, Data 2, Data 3,
                         Data 0, Data 1, Data 0, Data 1, Data 1, Data 2, Data 3,
                         Data 0, Data 1, Data 0, Data 1, Data 1, Data 2, Data 3,
                         Data 0, Data 1, Data 0, Data 1, Data 1, Data 2, Data 3,
                         Data 0, Data 1, Data 0, Data 1, Data 1, Data 2, Data 3],
        writes_stderr = [], returncode = 0\<rparr> [37, 80, 68, 70] None)))
       = [4691249611844267 / 281474976710656, 4691249611844267 / 140737488355328, 50,
          4691249611844267 / 70368744177664, 2932031007402667 / 35184372088832,
          7036874417766401 / 70368744177664, 7036874417766401 / 70368744177664, 100]
   \<and> \<not> sorted (percentages (progress (snd (convert scenario_deps
          \<lparr>writes_stdout = [Data 0, Data 6,
                         Data 0, Data 1, Data 0, Data 1, Data 1, Data 2, Data 3,
                         Data 0, Data 1, Data 0, Data 1, Data 1, Data 2, Data 3,
                         Data 0, Data 1, Data 0, Data 1, Data 1, Data 2, Data 3,
                         Data 0, Data 1, Data 0, Data 1, Data 1, Data 2, Data 3,
                         Data 0, Data 1, Data 0, Data 1, Data 1, Data 2, Data 3,
                         Data 0, Data 1, Data 0, Data 1, Data 1, Data 2, Data 3],
        writes_stderr = [], returncode = 0\<rparr> [37, 80, 68, 70] None))))"
  by (simp add: scenario_deps_def session_defs percentages_def float_div_100_6
                float_add_sixth_1 float_add_sixth_2 float_add_sixth_3
                float_add_sixth_4 float_add_sixth_5 float_add_sixth_6)

end
